theory Spec2Isabelle
  imports Complex_Main "HOL-Library.AList"
begin

chapter \<open>The model\<close>

section \<open>The mbox export: \<open>sanitize_filename\<close> (1_files_from_mbox.py)\<close>

text \<open>
  A Python \<open>str\<close> is a sequence of Unicode code points; \<open>len\<close> counts code points.
  A code point is modelled as a natural number and a string as a list of them, so that
  no input of the source is excluded. \<open>str_of\<close> embeds an ASCII literal.
\<close>

type_synonym codepoint = nat
type_synonym pystr = "codepoint list"

definition str_of :: "string \<Rightarrow> pystr" where
  "str_of s = map of_char s"

text \<open>
  The character class of the first \<open>re.sub\<close>, whose matches become an underscore
  (95), by code point: less-than 60, greater-than 62, colon 58, double quote 34,
  slash 47, backslash 92, vertical bar 124, question mark 63, asterisk 42.
\<close>

definition invalid_chars :: "codepoint list" where
  "invalid_chars = [60, 62, 58, 34, 47, 92, 124, 63, 42]"

definition is_invalid :: "codepoint \<Rightarrow> bool" where
  "is_invalid c = (c \<in> set invalid_chars)"

text \<open>The class \<^verbatim>\<open>[\x00-\x1f\x7f]\<close>.\<close>

definition is_control :: "codepoint \<Rightarrow> bool" where
  "is_control c = (c \<le> 31 \<or> c = 127)"

text \<open>\<^verbatim>\<open>re.sub(r'_+', '_', filename)\<close>: every maximal run of underscores (95) becomes one.\<close>

fun collapse_underscores :: "pystr \<Rightarrow> pystr" where
  "collapse_underscores (a # b # cs) =
     (if a = 95 \<and> b = 95 then collapse_underscores (b # cs)
      else a # collapse_underscores (b # cs))"
| "collapse_underscores cs = cs"

text \<open>\<^verbatim>\<open>filename.strip(' .')\<close>: spaces (32) and dots (46) are removed from both ends.\<close>

definition is_space_or_dot :: "codepoint \<Rightarrow> bool" where
  "is_space_or_dot c = (c = 32 \<or> c = 46)"

definition strip_space_dot :: "pystr \<Rightarrow> pystr" where
  "strip_space_dot s = rev (dropWhile is_space_or_dot (rev (dropWhile is_space_or_dot s)))"

text \<open>
  \<open>str.rfind\<close> for a single character: the index of its last occurrence, or \<open>-1\<close>.
\<close>

definition rfind :: "codepoint \<Rightarrow> pystr \<Rightarrow> int" where
  "rfind c p =
     (if c \<in> set p then int (length p) - 1 - int (length (takeWhile (\<lambda>x. x \<noteq> c) (rev p)))
      else - 1)"

text \<open>
  \<open>os.path.splitext\<close> is \<open>genericpath._splitext(p, sep, altsep, extsep)\<close>; the script
  is written for Windows, where \<open>sep\<close> is the backslash (92), \<open>altsep\<close> the slash (47)
  and \<open>extsep\<close> the dot (46):
  \<^verbatim>\<open>
    sepIndex = max(p.rfind(sep), p.rfind(altsep))
    dotIndex = p.rfind(extsep)
    if dotIndex > sepIndex:
        filenameIndex = sepIndex + 1
        while filenameIndex < dotIndex:
            if p[filenameIndex:filenameIndex+1] != extsep:
                return p[:dotIndex], p[dotIndex:]
            filenameIndex += 1
    return p, p[:0]
  \<close>
  The inner loop looks for a character other than the dot in \<open>p[sepIndex+1:dotIndex]\<close>.
\<close>

definition splitext :: "pystr \<Rightarrow> pystr \<times> pystr" where
  "splitext p =
     (let sepIndex = max (rfind 92 p) (rfind 47 p);
          dotIndex = rfind 46 p
      in if dotIndex > sepIndex \<and>
            list_ex (\<lambda>c. c \<noteq> 46) (drop (nat (sepIndex + 1)) (take (nat dotIndex) p))
         then (take (nat dotIndex) p, drop (nat dotIndex) p)
         else (p, []))"

text \<open>
  \<open>str.upper\<close> maps every code point by Unicode's full upper-case mapping, one code
  point to one, two or three. On ASCII it maps \<open>a\<close>..\<open>z\<close> (97..122) to \<open>A\<close>..\<open>Z\<close> and
  leaves the rest. The table for the other code points belongs to the Python runtime
  and is the parameter \<open>up\<close>.
\<close>

definition upper_char :: "(codepoint \<Rightarrow> pystr) \<Rightarrow> codepoint \<Rightarrow> pystr" where
  "upper_char up c =
     (if c < 128 then (if 97 \<le> c \<and> c \<le> 122 then [c - 32] else [c]) else up c)"

definition upper :: "(codepoint \<Rightarrow> pystr) \<Rightarrow> pystr \<Rightarrow> pystr" where
  "upper up s = concat (map (upper_char up) s)"

definition reserved :: "pystr list" where
  "reserved = map str_of
     [''CON'', ''PRN'', ''AUX'', ''NUL'', ''COM1'', ''COM2'', ''COM3'', ''COM4'',
      ''COM5'', ''COM6'', ''COM7'', ''COM8'', ''COM9'', ''LPT1'', ''LPT2'',
      ''LPT3'', ''LPT4'', ''LPT5'', ''LPT6'', ''LPT7'', ''LPT8'', ''LPT9'']"

text \<open>The steps of \<open>sanitize_filename\<close> after the first test, in the source's order.\<close>

definition replace_invalid :: "pystr \<Rightarrow> pystr" where
  "replace_invalid s = map (\<lambda>c. if is_invalid c then 95 else c) s"

definition remove_control :: "pystr \<Rightarrow> pystr" where
  "remove_control s = filter (\<lambda>c. \<not> is_control c) s"

definition or_unnamed :: "pystr \<Rightarrow> pystr" where
  "or_unnamed s = (if s = [] then str_of ''unnamed'' else s)"

definition guard_reserved :: "(codepoint \<Rightarrow> pystr) \<Rightarrow> pystr \<Rightarrow> pystr" where
  "guard_reserved up s =
     (if upper up (fst (splitext s)) \<in> set reserved then 95 # s else s)"

definition limit_length :: "pystr \<Rightarrow> pystr" where
  "limit_length s =
     (if length s > 100
      then (case splitext s of (name, ext) \<Rightarrow> take 95 name @ str_of ''...'' @ ext)
      else s)"

definition sanitize_filename :: "(codepoint \<Rightarrow> pystr) \<Rightarrow> pystr \<Rightarrow> pystr" where
  "sanitize_filename up filename =
     (if filename = [] then str_of ''unnamed''
      else limit_length (guard_reserved up (or_unnamed (strip_space_dot
             (collapse_underscores (remove_control (replace_invalid filename)))))))"

text \<open>
  Three predicates used to state what the steps establish: no path separator, no
  forbidden or control character, and (for the name reaching the reserved-name test)
  non-empty with a first character other than the dot.
\<close>

definition no_sep :: "pystr \<Rightarrow> bool" where
  "no_sep s = (92 \<notin> set s \<and> 47 \<notin> set s)"

definition clean :: "pystr \<Rightarrow> bool" where
  "clean s = (\<forall>c\<in>set s. \<not> is_invalid c \<and> \<not> is_control c)"

definition good :: "pystr \<Rightarrow> bool" where
  "good s = (clean s \<and> s \<noteq> [] \<and> hd s \<noteq> 46)"

text \<open>
  A stand-in for the upper-case table, used only to evaluate \<open>sanitize_filename\<close> on
  ASCII inputs, where the table is never consulted.
\<close>

definition identity_table :: "codepoint \<Rightarrow> pystr" where
  "identity_table c = [c]"

section \<open>The email metadata: export, consolidation and search\<close>

text \<open>
  JSON values as \<open>json.load\<close> returns them and \<open>json.dump\<close> writes them. A Python
  \<open>dict\<close> keeps its keys in insertion order: it is an association list, read with
  \<open>map_of\<close> and written with \<open>AList.update\<close>, which replaces the value of a key in
  place and appends a new key at the end. Writing a value with \<open>json.dump\<close> and
  reading it back with \<open>json.load\<close> is taken to return the value.
\<close>

datatype json =
  JNull
  | JBool bool
  | JNum int
  | JStr pystr
  | JList "json list"
  | JObj "(pystr \<times> json) list"

datatype py_error = AttributeError | TypeError | KeyError | EOFError | WebDriverException


subsection \<open>\<open>process_mbox\<close>: the JSON written beside each email (1_files_from_mbox.py)\<close>



subsection \<open>5_json_consolidater.py\<close>






subsection \<open>json_email_search.py\<close>











subsection \<open>What the consolidater finds in its source directory\<close>








section \<open>The PDF compression (4_pdf_compress.py)\<close>

text \<open>
  A file is its content, a list of bytes; \<open>st_size\<close> is the length. A path lies in
  the source tree \<open>src\<close> or in the destination tree \<open>dst\<close>, under a list of
  directories, and ends in a file name: \<open>dst / pdf_path.relative_to(src)\<close> is the
  path with the same directories and name in the other tree. The file system maps the
  paths that exist to their content.
\<close>

type_synonym bytes = "nat list"

datatype tree = Source | Destination

datatype path = Path tree "pystr list" pystr

type_synonym filesystem = "path \<Rightarrow> bytes option"

datatype os_error = FileNotFoundError | ValueError

text \<open>
  \<open>PurePath.suffix\<close> and \<open>PurePath.with_suffix\<close>, on the file name:
  \<^verbatim>\<open>
    i = name.rfind('.')
    if 0 < i < len(name) - 1: return name[i:]
    else: return ''
  \<close>
  \<^verbatim>\<open>
    if not name: raise ValueError
    if not old_suffix: name = name + suffix
    else: name = name[:-len(old_suffix)] + suffix
  \<close>
\<close>

definition suffix :: "pystr \<Rightarrow> pystr" where
  "suffix name =
     (let i = rfind 46 name
      in if 0 < i \<and> i < int (length name) - 1 then drop (nat i) name else [])"

definition with_suffix :: "pystr \<Rightarrow> pystr \<Rightarrow> os_error + pystr" where
  "with_suffix name new_suffix =
     (if name = [] then Inl ValueError
      else if suffix name = [] then Inr (name @ new_suffix)
      else Inr (take (length name - length (suffix name)) name @ new_suffix))"

definition ALWAYS_KEEP_SMALLEST :: bool where
  "ALWAYS_KEEP_SMALLEST = True"

definition TIMEOUT_SECONDS :: real where
  "TIMEOUT_SECONDS = 60"

text \<open>
  \<open>get_file_size_mb\<close>: the size in bytes divided by \<open>1024 * 1024\<close>. The source
  divides in floating point; dividing by a power of two is exact there for every size
  below \<open>2^53\<close> bytes, so the comparison of two sizes is the comparison of the
  quotients taken here in the reals.
\<close>

definition get_file_size_mb :: "filesystem \<Rightarrow> path \<Rightarrow> os_error + real" where
  "get_file_size_mb fs file_path =
     (case fs file_path of
        None \<Rightarrow> Inl FileNotFoundError
      | Some content \<Rightarrow> Inr (real (length content) / (1024 * 1024)))"

text \<open>
  One run of Ghostscript, as the script sees it: whether \<open>compress_with_ghostscript\<close>
  returned \<open>True\<close>, what Ghostscript left at the output path it was given (\<open>None\<close>:
  it wrote nothing there, and what was there before stays), and the seconds that
  passed. A missing executable, a non-zero return code, a timeout and an exception are
  all runs that return \<open>False\<close>.
\<close>

record gs_run =
  gs_success :: bool
  gs_written :: "bytes option"
  gs_elapsed :: real

definition compress_with_ghostscript :: "gs_run \<Rightarrow> path \<Rightarrow> filesystem \<Rightarrow> bool \<times> filesystem" where
  "compress_with_ghostscript gs output_path fs =
     (gs_success gs,
      (case gs_written gs of None \<Rightarrow> fs | Some content \<Rightarrow> fs(output_path \<mapsto> content)))"

text \<open>
  The state of the loop in \<open>main\<close>: the file system and the counters of the summary.
  (The two totals of sizes only feed the printed summary and are left out.)
\<close>

record compress_state =
  disk :: filesystem
  successful :: nat
  failed :: nat
  kept_original :: nat
  compressed_smaller :: nat
  timed_out :: nat

definition copy2 :: "path \<Rightarrow> path \<Rightarrow> filesystem \<Rightarrow> filesystem" where
  "copy2 source target fs = fs(target := fs source)"

definition move :: "path \<Rightarrow> path \<Rightarrow> filesystem \<Rightarrow> filesystem" where
  "move source target fs = (fs(target := fs source))(source := None)"

definition unlink_if_exists :: "path \<Rightarrow> filesystem \<Rightarrow> filesystem" where
  "unlink_if_exists p fs = (if fs p \<noteq> None then fs(p := None) else fs)"

text \<open>
  The body of the loop for one PDF of the source tree, found under \<open>dirs\<close> with the
  name \<open>name\<close>; \<open>gs\<close> is the run of Ghostscript it would start.
\<close>

definition process_pdf ::
  "gs_run \<Rightarrow> pystr list \<Rightarrow> pystr \<Rightarrow> compress_state \<Rightarrow> os_error + compress_state" where
  "process_pdf gs dirs name st =
     (let pdf_path = Path Source dirs name;
          output_path = Path Destination dirs name
      in case get_file_size_mb (disk st) pdf_path of
           Inl e \<Rightarrow> Inl e
         | Inr original_size \<Rightarrow>
             if disk st output_path \<noteq> None then
               (case get_file_size_mb (disk st) output_path of
                  Inl e \<Rightarrow> Inl e
                | Inr final_size \<Rightarrow>
                    Inr (if final_size < original_size
                         then st\<lparr>successful := successful st + 1,
                                 compressed_smaller := compressed_smaller st + 1\<rparr>
                         else st\<lparr>successful := successful st + 1,
                                 kept_original := kept_original st + 1\<rparr>))
             else
               (case with_suffix name (str_of ''.temp.pdf'') of
                  Inl e \<Rightarrow> Inl e
                | Inr temp_name \<Rightarrow>
                    (let temp_path = Path Destination dirs temp_name;
                         (success, fs1) = compress_with_ghostscript gs temp_path (disk st)
                     in if success \<and> fs1 temp_path \<noteq> None then
                          (case get_file_size_mb fs1 temp_path of
                             Inl e \<Rightarrow> Inl e
                           | Inr compressed_size \<Rightarrow>
                               if compressed_size < original_size \<or> \<not> ALWAYS_KEEP_SMALLEST then
                                 (if compressed_size < original_size
                                  then Inr (st\<lparr>disk := move temp_path output_path fs1,
                                         successful := successful st + 1,
                                         compressed_smaller := compressed_smaller st + 1\<rparr>)
                                  else Inr (st\<lparr>disk := move temp_path output_path fs1,
                                         successful := successful st + 1,
                                         kept_original := kept_original st + 1\<rparr>))
                               else
                                 Inr (st\<lparr>disk := unlink_if_exists temp_path
                                                 (copy2 pdf_path output_path fs1),
                                         successful := successful st + 1,
                                         kept_original := kept_original st + 1\<rparr>))
                        else
                          (let fs2 = unlink_if_exists temp_path (copy2 pdf_path output_path fs1)
                           in if gs_elapsed gs \<ge> TIMEOUT_SECONDS
                              then Inr (st\<lparr>disk := fs2, timed_out := timed_out st + 1\<rparr>)
                              else Inr (st\<lparr>disk := fs2, failed := failed st + 1\<rparr>)))))"


text \<open>A file system and a state for the examples: one source PDF of five bytes.\<close>

definition fs_one :: filesystem where
  "fs_one = Map.empty(Path Source [] (str_of ''a.pdf'') \<mapsto> [1, 2, 3, 4, 5])"

definition st_one :: compress_state where
  "st_one = \<lparr>disk = fs_one, successful = 0, failed = 0, kept_original = 0,
     compressed_smaller = 0, timed_out = 0\<rparr>"

definition gs_smaller :: gs_run where
  "gs_smaller = \<lparr>gs_success = True, gs_written = Some [7, 8], gs_elapsed = 1\<rparr>"




section \<open>The CIA reading room scraper (cia_rdp96_app.py)\<close>

text \<open>
  A directory of text files maps file names to contents, in the order of
  \<open>os.listdir\<close>; writing a file replaces its content or adds the file.
\<close>

type_synonym directory = "(pystr \<times> pystr) list"

definition listdir :: "directory \<Rightarrow> pystr list" where
  "listdir d = map fst d"

definition write_file :: "pystr \<Rightarrow> pystr \<Rightarrow> directory \<Rightarrow> directory" where
  "write_file filename content d = AList.update filename content d"

text \<open>\<open>s.endswith(t)\<close>, \<open>s.replace(old, '')\<close> and \<open>s.split('/')[-1]\<close>.\<close>

definition endswith :: "pystr \<Rightarrow> pystr \<Rightarrow> bool" where
  "endswith s t = (length t \<le> length s \<and> drop (length s - length t) s = t)"

fun remove_all :: "pystr \<Rightarrow> pystr \<Rightarrow> pystr" where
  "remove_all old [] = []"
| "remove_all old (c # cs) =
     (if old \<noteq> [] \<and> take (length old) (c # cs) = old
      then remove_all old (drop (length old - 1) cs)
      else c # remove_all old cs)"

definition last_component :: "pystr \<Rightarrow> pystr" where
  "last_component url = rev (takeWhile (\<lambda>c. c \<noteq> 47) (rev url))"

definition html :: pystr where
  "html = str_of ''.html''"

subsection \<open>What the body of a \<open>try\<close> does\<close>

text \<open>
  Both loops have the same body: \<open>driver.get(url)\<close>, then the output file is opened
  for writing, then \<open>driver.page_source\<close> is evaluated and written. The body ends in
  one of three ways. It raises before the file is opened (\<open>driver.get\<close> or \<open>open\<close>
  raises), and nothing is written. It raises after the file is opened: the file is
  created or truncated and holds what was written so far, nothing when
  \<open>driver.page_source\<close> raises. Or the page source is written.
\<close>

datatype fetched = Raises | RaisesWriting pystr | Saved pystr



subsection \<open>Layer 1: \<open>scrape_document_pages\<close>\<close>

text \<open>
  The browser is a function \<open>fetch\<close>: what the body of the \<open>try\<close> does for a URL.
  The state is the directory \<open>output/layer_1\<close> and the list of the URLs requested
  from the browser so far.
\<close>

record scraper_state =
  layer_1 :: directory
  requested :: "pystr list"

definition downloaded :: "directory \<Rightarrow> pystr list" where
  "downloaded d = map (remove_all html) (filter (\<lambda>filename. endswith filename html) (listdir d))"

definition urls_to_scrape :: "directory \<Rightarrow> pystr list \<Rightarrow> pystr list" where
  "urls_to_scrape d urls = filter (\<lambda>url. last_component url \<notin> set (downloaded d)) urls"

fun scrape_loop :: "(pystr \<Rightarrow> fetched) \<Rightarrow> pystr list \<Rightarrow> scraper_state \<Rightarrow> scraper_state" where
  "scrape_loop fetch [] st = st"
| "scrape_loop fetch (url # rest) st =
     (case fetch url of
        Raises \<Rightarrow> scrape_loop fetch rest (st\<lparr>requested := requested st @ [url]\<rparr>)
      | RaisesWriting partial \<Rightarrow>
          scrape_loop fetch rest
            (st\<lparr>layer_1 := write_file (last_component url @ html) partial (layer_1 st),
                requested := requested st @ [url]\<rparr>)
      | Saved page_source \<Rightarrow>
          scrape_loop fetch rest
            (st\<lparr>layer_1 := write_file (last_component url @ html) page_source (layer_1 st),
                requested := requested st @ [url]\<rparr>))"

definition scrape_document_pages ::
  "(pystr \<Rightarrow> fetched) \<Rightarrow> pystr list \<Rightarrow> scraper_state \<Rightarrow> scraper_state" where
  "scrape_document_pages fetch urls st = scrape_loop fetch (urls_to_scrape (layer_1 st) urls) st"

subsection \<open>Layer 0: \<open>scrape_search_pages\<close>\<close>








text \<open>
  A document whose identifier ends in \<open>.html\<close>, saved by an earlier run, and a
  browser that now serves a new page for it; a document with a plain identifier.
\<close>

definition url_html :: pystr where
  "url_html = str_of ''https://www.cia.gov/readingroom/document/cia-rdp96-x.html''"

definition url_plain :: pystr where
  "url_plain = str_of ''https://www.cia.gov/readingroom/document/cia-rdp96-y''"

definition after_first_run :: scraper_state where
  "after_first_run =
     \<lparr>layer_1 = [(str_of ''cia-rdp96-x.html.html'', str_of ''old''),
                 (str_of ''cia-rdp96-y.html'', str_of ''old'')],
      requested = []\<rparr>"

definition fetch_new :: "pystr \<Rightarrow> fetched" where
  "fetch_new url = Saved (str_of ''new'')"




section \<open>The state department scraper: \<open>layer_0\<close> (state_dep_allowances.py)\<close>

text \<open>
  What selecting a date and submitting the form gives: the navigation raises (it
  stands outside the \<open>try\<close>), reading the tables raises, the page has no table, or
  the first table, as the CSV text written for it.
\<close>

datatype submit_result = NavigationRaises | ReadRaises | NoTables | Table pystr

record tables_state =
  tables :: directory
  submitted :: "pystr list"

definition csv_name :: "pystr \<Rightarrow> pystr" where
  "csv_name date_val = date_val @ str_of ''.csv''"

fun layer_0_loop ::
  "(pystr \<Rightarrow> submit_result) \<Rightarrow> pystr list \<Rightarrow> tables_state \<Rightarrow> py_error + tables_state" where
  "layer_0_loop page [] st = Inr st"
| "layer_0_loop page (date_val # rest) st =
     (if csv_name date_val \<in> set (listdir (tables st)) then layer_0_loop page rest st
      else
        (case page date_val of
           NavigationRaises \<Rightarrow> Inl WebDriverException
         | ReadRaises \<Rightarrow>
             layer_0_loop page rest (st\<lparr>submitted := submitted st @ [date_val]\<rparr>)
         | NoTables \<Rightarrow>
             layer_0_loop page rest (st\<lparr>submitted := submitted st @ [date_val]\<rparr>)
         | Table csv \<Rightarrow>
             layer_0_loop page rest
               (st\<lparr>tables := write_file (csv_name date_val) csv (tables st),
                   submitted := submitted st @ [date_val]\<rparr>)))"

section \<open>The PDF repair: \<open>main\<close> (3_pdf_repair.py)\<close>

text \<open>
  One fix method run on one PDF: whether it returned \<open>True\<close>, and what it left at the
  output path (\<open>None\<close>: nothing written). The three methods catch their own
  exceptions and return \<open>False\<close>.
\<close>

record fix_run =
  fix_ok :: bool
  fix_written :: "bytes option"

definition exists_over_1024 :: "filesystem \<Rightarrow> path \<Rightarrow> bool" where
  "exists_over_1024 fs p = (case fs p of None \<Rightarrow> False | Some content \<Rightarrow> length content > 1024)"

text \<open>The methods are tried in order until one returns \<open>True\<close>.\<close>

fun try_methods :: "fix_run list \<Rightarrow> path \<Rightarrow> filesystem \<Rightarrow> bool \<times> filesystem" where
  "try_methods [] output_path fs = (False, fs)"
| "try_methods (run # runs) output_path fs =
     (let fs' = (case fix_written run of None \<Rightarrow> fs | Some content \<Rightarrow> fs(output_path \<mapsto> content))
      in if fix_ok run then (True, fs') else try_methods runs output_path fs')"

text \<open>
  The PDFs found, each with the runs its fix methods would make. The first loop of
  \<open>main\<close> keeps those whose output is missing or not over 1024 bytes; the second
  loop repairs the ones kept.
\<close>

definition pdfs_to_process ::
  "filesystem \<Rightarrow> (pystr list \<times> pystr \<times> fix_run list) list
   \<Rightarrow> (pystr list \<times> pystr \<times> fix_run list) list" where
  "pdfs_to_process fs all_pdfs =
     filter (\<lambda>(dirs, name, runs). \<not> exists_over_1024 fs (Path Destination dirs name)) all_pdfs"

record repair_state =
  repaired_files :: filesystem
  repair_log :: "path list"

fun repair_loop :: "(pystr list \<times> pystr \<times> fix_run list) list \<Rightarrow> repair_state \<Rightarrow> repair_state" where
  "repair_loop [] st = st"
| "repair_loop ((dirs, name, runs) # rest) st =
     repair_loop rest
       (st\<lparr>repaired_files := snd (try_methods runs (Path Destination dirs name) (repaired_files st)),
           repair_log := repair_log st @ [Path Source dirs name]\<rparr>)"

definition repair_main :: "(pystr list \<times> pystr \<times> fix_run list) list \<Rightarrow> repair_state \<Rightarrow> repair_state" where
  "repair_main all_pdfs st = repair_loop (pdfs_to_process (repaired_files st) all_pdfs) st"

section \<open>The FBI Vault scraper (fbi_vault_scraper/app.py)\<close>

subsection \<open>The tracking list, the world and its events\<close>

text \<open>
  An entry of \<open>downloaded_pdfs\<close> is a Python dictionary; the tracking file
  \<open>downloaded_<term>.json\<close> holds the list as \<open>json.dump\<close> wrote it. A result link
  of the search page is what the scraper reads of it: its \<open>href\<close> attribute (a string,
  or \<open>None\<close>, which is \<open>JNull\<close>) and its stripped text.
\<close>

type_synonym entry = "(pystr \<times> json) list"

record link =
  link_href :: json
  link_text :: pystr

definition k_path :: pystr where "k_path = str_of ''path''"
definition k_url :: pystr where "k_url = str_of ''url''"
definition k_title :: pystr where "k_title = str_of ''title''"
definition k_ocr :: pystr where "k_ocr = str_of ''ocr''"

definition status_pending :: json where "status_pending = JStr (str_of ''pending'')"
definition status_complete :: json where "status_complete = JStr (str_of ''complete'')"
definition status_failed :: json where "status_failed = JStr (str_of ''failed'')"

text \<open>
  The world the scraper changes: the tracking file (\<open>None\<close> while it does not exist),
  the list \<open>self.results\<close>, and the record of what was done, in order: a download
  attempt for a link, a PDF stored, the tracking file written with a list, the text
  extraction of a PDF started (with its position in the list and its path), a
  document appended to the results, the results file
  saved, a pass over the list started in the OCR phase, the operator asked.
\<close>

datatype event =
  DownloadAttempt json
  | PdfStored pystr
  | TrackingWritten "entry list"
  | OcrStarted nat json
  | ResultAppended json
  | ResultsSaved
  | OcrPass
  | Asked

record world =
  tracking_file :: "entry list option"
  ocr_results :: "json list"
  events :: "event list"

definition emit :: "event \<Rightarrow> world \<Rightarrow> world" where
  "emit e w = w\<lparr>events := events w @ [e]\<rparr>"

text \<open>
  \<^verbatim>\<open>with open(tracking_file, 'w') as f: json.dump(downloaded_pdfs, f, indent=2)\<close>
  and \<open>save_results\<close>, which catches its own exceptions. Writing a file is taken to
  succeed.
\<close>

definition write_tracking :: "entry list \<Rightarrow> world \<Rightarrow> world" where
  "write_tracking downloaded_pdfs w =
     (emit (TrackingWritten downloaded_pdfs) w)\<lparr>tracking_file := Some downloaded_pdfs\<rparr>"

definition save_results :: "world \<Rightarrow> world" where
  "save_results w = emit ResultsSaved w"

text \<open>The dictionary appended after a download, in both download functions.\<close>

definition new_entry :: "pystr \<Rightarrow> json \<Rightarrow> pystr \<Rightarrow> entry" where
  "new_entry pdf_path link_url link_title =
     [(k_path, JStr pdf_path), (k_url, link_url), (k_title, JStr link_title), (k_ocr, status_pending)]"

subsection \<open>\<open>process_single_document_download\<close>\<close>

text \<open>\<open>any(pdf['url'] == link_url for pdf in downloaded_pdfs)\<close>.\<close>

fun any_url_is :: "json \<Rightarrow> entry list \<Rightarrow> py_error + bool" where
  "any_url_is link_url [] = Inr False"
| "any_url_is link_url (pdf # rest) =
     (case map_of pdf k_url of
        None \<Rightarrow> Inl KeyError
      | Some u \<Rightarrow> if u = link_url then Inr True else any_url_is link_url rest)"

text \<open>
  One pass through the body of the retry loop ends in one of five ways: no PDF link
  is found on the document page; \<open>download_pdf\<close> gives no file; the PDF is stored,
  the entry appended and the tracking file written, and the function returns; the same
  and then returning to the search page raises; or an exception is raised before
  anything is stored. The checks of the browser session change nothing recorded here
  and are left out.
\<close>

datatype attempt = NoPdfLink | DownloadFailed | Downloaded pystr | DownloadedThenRaised pystr | Raised

definition link_title :: "link \<Rightarrow> pystr" where
  "link_title l = (if link_text l = [] then str_of ''Unknown Document'' else link_text l)"

function retry_loop ::
  "nat \<Rightarrow> (nat \<Rightarrow> attempt) \<Rightarrow> link \<Rightarrow> nat \<Rightarrow> entry list \<Rightarrow> nat \<Rightarrow> world
   \<Rightarrow> (nat \<times> bool) \<times> entry list \<times> world" where
  "retry_loop max_retries attempts l retry_count downloaded_pdfs documents_processed w =
     (if retry_count < max_retries then
        (let w1 = emit (DownloadAttempt (link_href l)) w
         in case attempts retry_count of
              NoPdfLink \<Rightarrow>
                retry_loop max_retries attempts l (retry_count + 1) downloaded_pdfs
                  documents_processed w1
            | DownloadFailed \<Rightarrow>
                retry_loop max_retries attempts l (retry_count + 1) downloaded_pdfs
                  documents_processed w1
            | Raised \<Rightarrow>
                retry_loop max_retries attempts l (retry_count + 1) downloaded_pdfs
                  documents_processed w1
            | Downloaded pdf_path \<Rightarrow>
                (let pdfs = downloaded_pdfs @ [new_entry pdf_path (link_href l) (link_title l)]
                 in ((documents_processed + 1, True), pdfs,
                     write_tracking pdfs (emit (PdfStored pdf_path) w1)))
            | DownloadedThenRaised pdf_path \<Rightarrow>
                (let pdfs = downloaded_pdfs @ [new_entry pdf_path (link_href l) (link_title l)]
                 in retry_loop max_retries attempts l (retry_count + 1) pdfs
                      (documents_processed + 1)
                      (write_tracking pdfs (emit (PdfStored pdf_path) w1))))
      else ((documents_processed, False), downloaded_pdfs, w))"
  by pat_completeness auto
termination
  by (relation "measure (\<lambda>(max_retries, attempts, l, retry_count, rest). max_retries - retry_count)")
    auto

declare retry_loop.simps [simp del]

definition process_single_document_download ::
  "(nat \<Rightarrow> attempt) \<Rightarrow> link \<Rightarrow> entry list \<Rightarrow> nat \<Rightarrow> world
   \<Rightarrow> (py_error + nat \<times> bool) \<times> entry list \<times> world" where
  "process_single_document_download attempts l downloaded_pdfs documents_processed w =
     (case any_url_is (link_href l) downloaded_pdfs of
        Inl e \<Rightarrow> (Inl e, downloaded_pdfs, w)
      | Inr True \<Rightarrow> (Inr (documents_processed, True), downloaded_pdfs, w)
      | Inr False \<Rightarrow>
          (case retry_loop 3 attempts l 0 downloaded_pdfs documents_processed w of
             (r, pdfs, w') \<Rightarrow> (Inr r, pdfs, w')))"

subsection \<open>\<open>process_page_downloads\<close> and the download loop of \<open>run\<close>\<close>

text \<open>
  What the browser shows while one page of results is processed: the links
  \<open>run\<close> finds on it, the links \<open>process_page_downloads\<close> finds when it starts, for
  each round of its loop the links found again and the attempts the download of that
  round makes, and whether a next page can be reached. A missing round stands for a
  page that shows no links any more.
\<close>

record page_visit =
  pv_links :: "link list"
  pv_links_again :: "link list"
  pv_rounds :: "(link list \<times> (nat \<Rightarrow> attempt)) list"
  pv_next :: bool

text \<open>\<open>max_documents and documents_processed >= max_documents\<close>.\<close>

definition reached_maximum :: "int option \<Rightarrow> nat \<Rightarrow> bool" where
  "reached_maximum max_documents documents_processed =
     (case max_documents of
        None \<Rightarrow> False
      | Some m \<Rightarrow> m \<noteq> 0 \<and> int documents_processed \<ge> m)"

fun page_loop ::
  "int option \<Rightarrow> nat \<Rightarrow> nat \<Rightarrow> (link list \<times> (nat \<Rightarrow> attempt)) list \<Rightarrow> entry list \<Rightarrow> nat \<Rightarrow> world
   \<Rightarrow> (py_error + nat \<times> bool) \<times> entry list \<times> world" where
  "page_loop max_documents 0 i rounds downloaded_pdfs documents_processed w =
     (Inr (documents_processed, False), downloaded_pdfs, w)"
| "page_loop max_documents (Suc todo) i rounds downloaded_pdfs documents_processed w =
     (if reached_maximum max_documents documents_processed
      then (Inr (documents_processed, True), downloaded_pdfs, w)
      else
        (case rounds of
           [] \<Rightarrow> (Inr (documents_processed, False), downloaded_pdfs, w)
         | (current_links, attempts) # rounds' \<Rightarrow>
             if i \<ge> length current_links
             then (Inr (documents_processed, False), downloaded_pdfs, w)
             else
               (case process_single_document_download attempts (current_links ! i)
                       downloaded_pdfs documents_processed w of
                  (Inl e, pdfs, w') \<Rightarrow> (Inl e, pdfs, w')
                | (Inr (processed, ok), pdfs, w') \<Rightarrow>
                    page_loop max_documents todo (i + 1) rounds' pdfs processed w')))"

definition process_page_downloads ::
  "int option \<Rightarrow> page_visit \<Rightarrow> entry list \<Rightarrow> nat \<Rightarrow> world
   \<Rightarrow> (py_error + nat \<times> bool) \<times> entry list \<times> world" where
  "process_page_downloads max_documents pv downloaded_pdfs documents_processed w =
     page_loop max_documents (length (pv_links_again pv)) 0 (pv_rounds pv)
       downloaded_pdfs documents_processed w"

text \<open>
  The \<open>while True\<close> loop of \<open>run\<close> over the pages of results. The visits are a finite
  list: when it is used up the browser shows no results, and \<open>get_result_links\<close>
  returns the empty list, as it does after its timeout.
\<close>

fun download_loop ::
  "int option \<Rightarrow> page_visit list \<Rightarrow> entry list \<Rightarrow> nat \<Rightarrow> world
   \<Rightarrow> (py_error + nat) \<times> entry list \<times> world" where
  "download_loop max_documents [] downloaded_pdfs documents_processed w =
     (Inr documents_processed, downloaded_pdfs, w)"
| "download_loop max_documents (pv # visits) downloaded_pdfs documents_processed w =
     (if pv_links pv = [] then (Inr documents_processed, downloaded_pdfs, w)
      else
        (case process_page_downloads max_documents pv downloaded_pdfs documents_processed w of
           (Inl e, pdfs, w') \<Rightarrow> (Inl e, pdfs, w')
         | (Inr (processed, reached_max), pdfs, w') \<Rightarrow>
             if reached_max then (Inr processed, pdfs, w')
             else if \<not> pv_next pv then (Inr processed, pdfs, w')
             else download_loop max_documents visits pdfs processed w'))"

subsection \<open>\<open>verify_downloads_complete\<close> and \<open>download_missing_documents\<close>\<close>

text \<open>\<open>{pdf['url'] for pdf in downloaded_pdfs}\<close>.\<close>

fun urls_of :: "entry list \<Rightarrow> py_error + json list" where
  "urls_of [] = Inr []"
| "urls_of (pdf # rest) =
     (case map_of pdf k_url of
        None \<Rightarrow> Inl KeyError
      | Some u \<Rightarrow> (case urls_of rest of Inl e \<Rightarrow> Inl e | Inr us \<Rightarrow> Inr (u # us)))"

text \<open>
  What happens for one link that is not yet downloaded: no PDF link, no file, the PDF
  stored (and the entry appended and written), or an exception, which the loop logs.
\<close>

datatype missing_attempt = MissingNoPdfLink | MissingFailed | MissingDownloaded pystr | MissingRaised

definition missing_title :: "link \<Rightarrow> pystr" where
  "missing_title l = (if link_text l = [] then str_of ''Unknown'' else link_text l)"

fun missing_loop ::
  "(link \<times> missing_attempt) list \<Rightarrow> json list \<Rightarrow> entry list \<Rightarrow> world \<Rightarrow> entry list \<times> world" where
  "missing_loop [] downloaded_urls downloaded_pdfs w = (downloaded_pdfs, w)"
| "missing_loop ((l, a) # rest) downloaded_urls downloaded_pdfs w =
     (if link_href l \<in> set downloaded_urls then missing_loop rest downloaded_urls downloaded_pdfs w
      else
        (let w1 = emit (DownloadAttempt (link_href l)) w
         in case a of
              MissingDownloaded pdf_path \<Rightarrow>
                (let pdfs = downloaded_pdfs @ [new_entry pdf_path (link_href l) (missing_title l)]
                 in missing_loop rest (link_href l # downloaded_urls) pdfs
                      (write_tracking pdfs (emit (PdfStored pdf_path) w1)))
            | _ \<Rightarrow> missing_loop rest downloaded_urls downloaded_pdfs w1))"

definition download_missing_documents ::
  "(link \<times> missing_attempt) list \<Rightarrow> entry list \<Rightarrow> world \<Rightarrow> py_error + entry list \<times> world" where
  "download_missing_documents found downloaded_pdfs w =
     (case urls_of downloaded_pdfs of
        Inl e \<Rightarrow> Inl e
      | Inr downloaded_urls \<Rightarrow> Inr (missing_loop found downloaded_urls downloaded_pdfs w))"

text \<open>
  One verification attempt sees the number of links on all pages of results and, when
  it downloads what is missing, the links in the order of the pages, each with what
  its download does.
\<close>

record verify_visit =
  vv_total_available :: nat
  vv_found :: "(link \<times> missing_attempt) list"

fun verify_loop ::
  "(nat \<Rightarrow> verify_visit) \<Rightarrow> nat \<Rightarrow> nat \<Rightarrow> nat \<Rightarrow> entry list \<Rightarrow> world
   \<Rightarrow> (py_error + bool) \<times> entry list \<times> world" where
  "verify_loop vv max_verification_attempts 0 attempt downloaded_pdfs w =
     (Inr False, downloaded_pdfs, w)"
| "verify_loop vv max_verification_attempts (Suc todo) attempt downloaded_pdfs w =
     (if length downloaded_pdfs \<ge> vv_total_available (vv attempt)
      then (Inr True, downloaded_pdfs, w)
      else if attempt < max_verification_attempts then
        (case download_missing_documents (vv_found (vv attempt)) downloaded_pdfs w of
           Inl e \<Rightarrow> (Inl e, downloaded_pdfs, w)
         | Inr (pdfs, w') \<Rightarrow> verify_loop vv max_verification_attempts todo (attempt + 1) pdfs w')
      else verify_loop vv max_verification_attempts todo (attempt + 1) downloaded_pdfs w)"

definition verify_downloads_complete ::
  "(nat \<Rightarrow> verify_visit) \<Rightarrow> entry list \<Rightarrow> world \<Rightarrow> (py_error + bool) \<times> entry list \<times> world" where
  "verify_downloads_complete vv downloaded_pdfs w = verify_loop vv 3 3 1 downloaded_pdfs w"

subsection \<open>\<open>process_ocr_phase\<close>\<close>

text \<open>
  \<open>pdf.get('ocr') == status\<close> and the three counts of the status line.
\<close>

definition ocr_is :: "json \<Rightarrow> entry \<Rightarrow> bool" where
  "ocr_is status pdf = (map_of pdf k_ocr = Some status)"

definition count_ocr :: "json \<Rightarrow> entry list \<Rightarrow> nat" where
  "count_ocr status pdfs = length (filter (ocr_is status) pdfs)"

definition max_ocr_attempts :: nat where
  "max_ocr_attempts = 3"

text \<open>
  \<open>str.strip()\<close> removes the characters of \<open>str.isspace\<close> from both ends: the code
  points 9 to 13, 28 to 32, 133, 160, 5760, 8192 to 8202, 8232, 8233, 8239, 8287 and
  12288.
\<close>

definition is_whitespace :: "codepoint \<Rightarrow> bool" where
  "is_whitespace c =
     ((9 \<le> c \<and> c \<le> 13) \<or> (28 \<le> c \<and> c \<le> 32) \<or> c = 133 \<or> c = 160 \<or> c = 5760 \<or>
      (8192 \<le> c \<and> c \<le> 8202) \<or> c = 8232 \<or> c = 8233 \<or> c = 8239 \<or> c = 8287 \<or> c = 12288)"

definition strip_ws :: "pystr \<Rightarrow> pystr" where
  "strip_ws s = rev (dropWhile is_whitespace (rev (dropWhile is_whitespace s)))"

text \<open>
  \<open>input(...).lower() != 'y'\<close>: the only strings whose lower case is \<open>y\<close> are \<open>y\<close>
  (121) and \<open>Y\<close> (89). The answers of the operator are a list; when it is used up,
  \<open>input\<close> raises \<open>EOFError\<close>.
\<close>

definition answered_yes :: "pystr \<Rightarrow> bool" where
  "answered_yes response = (response = [121] \<or> response = [89])"

definition ask :: "pystr list \<Rightarrow> world \<Rightarrow> (py_error + bool) \<times> pystr list \<times> world" where
  "ask answers w =
     (case answers of
        [] \<Rightarrow> (Inl EOFError, [], emit Asked w)
      | response # rest \<Rightarrow> (Inr (answered_yes response), rest, emit Asked w))"

text \<open>
  What the body of the \<open>try\<close> meets for one PDF: the text \<open>extract_text_from_pdf\<close>
  returns together with the title read from the document page (\<open>None\<close> when reading
  it raised), or an exception.
\<close>

datatype ocr_outcome = OcrText pystr "pystr option" | OcrRaised

definition document ::
  "pystr \<Rightarrow> json \<Rightarrow> pystr \<Rightarrow> json \<Rightarrow> json \<Rightarrow> json" where
  "document today doc_title body_text doc_url pdf_path = JObj
     [(str_of ''date'', JStr today),
      (str_of ''title'', doc_title),
      (str_of ''body'', JStr body_text),
      (str_of ''url'', doc_url),
      (str_of ''pdf_path'', pdf_path)]"

definition mark :: "json \<Rightarrow> entry \<Rightarrow> entry" where
  "mark status pdf_info = AList.update k_ocr status pdf_info"

text \<open>
  The body of the \<open>for\<close> loop for one entry: \<open>seen\<close> are the entries before it,
  as they are now, \<open>rest\<close> the entries after it, and the list written to the tracking
  file is the whole list. The result is the entry as the body leaves it. The line that
  logs \<open>os.path.basename(pdf_info['path'])\<close> stands before the \<open>try\<close>, so a missing
  path ends the phase with the exception.
\<close>

definition ocr_one ::
  "ocr_outcome \<Rightarrow> pystr \<Rightarrow> nat \<Rightarrow> entry list \<Rightarrow> entry \<Rightarrow> entry list \<Rightarrow> world
   \<Rightarrow> (py_error + entry) \<times> world" where
  "ocr_one outcome today ocr_attempts seen pdf_info rest w =
     (if ocr_is status_complete pdf_info then (Inr pdf_info, w)
      else if ocr_is status_failed pdf_info \<and> ocr_attempts \<ge> max_ocr_attempts
      then (Inr pdf_info, w)
      else
        (case map_of pdf_info k_path of
           None \<Rightarrow> (Inl KeyError, w)
         | Some (JStr pdf_path) \<Rightarrow>
             (let w1 = emit (OcrStarted (length seen) (JStr pdf_path)) w;
                  give_up = (let pdf' = mark status_failed pdf_info
                             in (Inr pdf', write_tracking (seen @ pdf' # rest) w1))
              in case outcome of
                   OcrRaised \<Rightarrow> give_up
                 | OcrText body_text fetched_title \<Rightarrow>
                     (case (map_of pdf_info k_title, map_of pdf_info k_url) of
                        (Some stored_title, Some doc_url) \<Rightarrow>
                          (let doc_title =
                                 (case fetched_title of
                                    None \<Rightarrow> stored_title
                                  | Some t \<Rightarrow> if t = [] then stored_title else JStr t)
                           in if body_text \<noteq> [] \<and> length (strip_ws body_text) > 50
                              then
                                (let d = document today doc_title body_text doc_url (JStr pdf_path);
                                     pdf' = mark status_complete pdf_info;
                                     w2 = emit (ResultAppended d)
                                            (w1\<lparr>ocr_results := ocr_results w1 @ [d]\<rparr>)
                                 in (Inr pdf',
                                     save_results (write_tracking (seen @ pdf' # rest) w2)))
                              else
                                (let pdf' = mark status_failed pdf_info
                                 in (Inr pdf',
                                     save_results (write_tracking (seen @ pdf' # rest) w1))))
                      | _ \<Rightarrow> give_up))
         | Some _ \<Rightarrow> (Inl TypeError, w)))"

text \<open>The \<open>for\<close> loop over the list, from the left.\<close>

fun ocr_items ::
  "(nat \<Rightarrow> ocr_outcome) \<Rightarrow> pystr \<Rightarrow> nat \<Rightarrow> entry list \<Rightarrow> entry list \<Rightarrow> world
   \<Rightarrow> (py_error + unit) \<times> entry list \<times> world" where
  "ocr_items oc today ocr_attempts seen [] w = (Inr (), seen, w)"
| "ocr_items oc today ocr_attempts seen (pdf_info # rest) w =
     (case ocr_one (oc (length seen)) today ocr_attempts seen pdf_info rest w of
        (Inl e, w') \<Rightarrow> (Inl e, seen @ pdf_info # rest, w')
      | (Inr pdf', w') \<Rightarrow> ocr_items oc today ocr_attempts (seen @ [pdf']) rest w')"

text \<open>
  One round of the \<open>while True\<close> loop after its first test: the question before
  the pass (asked once the attempts are used up and a PDF has failed), the pass, and
  the question after it. The result \<open>True\<close> sends the loop into its next round,
  \<open>False\<close> is a \<open>break\<close>. \<open>oc n\<close> gives the outcomes of the pass that starts with
  \<open>ocr_attempts = n\<close>, by the position of the PDF in the list.
\<close>

definition ocr_round ::
  "(nat \<Rightarrow> nat \<Rightarrow> ocr_outcome) \<Rightarrow> pystr \<Rightarrow> nat \<Rightarrow> pystr list \<Rightarrow> entry list \<Rightarrow> world
   \<Rightarrow> (py_error + bool) \<times> pystr list \<times> entry list \<times> world" where
  "ocr_round oc today ocr_attempts answers downloaded_pdfs w =
     (case (if ocr_attempts \<ge> max_ocr_attempts \<and> count_ocr status_failed downloaded_pdfs > 0
            then ask answers w else (Inr True, answers, w)) of
        (Inl e, answers1, w1) \<Rightarrow> (Inl e, answers1, downloaded_pdfs, w1)
      | (Inr False, answers1, w1) \<Rightarrow> (Inr False, answers1, downloaded_pdfs, w1)
      | (Inr True, answers1, w1) \<Rightarrow>
          (case ocr_items (oc ocr_attempts) today ocr_attempts [] downloaded_pdfs
                  (emit OcrPass w1) of
             (Inl e, pdfs, w2) \<Rightarrow> (Inl e, answers1, pdfs, w2)
           | (Inr u, pdfs, w2) \<Rightarrow>
               if count_ocr status_complete pdfs < length downloaded_pdfs then
                 (if ocr_attempts + 1 < max_ocr_attempts then (Inr True, answers1, pdfs, w2)
                  else
                    (case ask answers1 w2 of
                       (Inl e, answers2, w3) \<Rightarrow> (Inl e, answers2, pdfs, w3)
                     | (Inr yes, answers2, w3) \<Rightarrow> (Inr yes, answers2, pdfs, w3)))
               else (Inr True, answers1, pdfs, w2)))"

text \<open>
  The loop ends for every list of answers: a round that sends the loop on has used up
  an attempt below the maximum, or an answer, or has completed the list.
\<close>

definition ocr_measure :: "nat \<Rightarrow> pystr list \<Rightarrow> entry list \<Rightarrow> nat" where
  "ocr_measure ocr_attempts answers pdfs =
     2 * length answers + 2 * (max_ocr_attempts - ocr_attempts)
     + (if count_ocr status_complete pdfs = length pdfs then 0 else 1)"

lemma length_ocr_items:
  "length (fst (snd (ocr_items oc today ocr_attempts seen todo w))) = length seen + length todo"
  by (induction oc today ocr_attempts seen todo w rule: ocr_items.induct)
    (auto split: prod.splits sum.splits)

lemma count_ocr_le: "count_ocr status pdfs \<le> length pdfs"
  by (simp add: count_ocr_def)

lemma ask_shorter: "ask answers w = (Inr b, answers', w') \<Longrightarrow> length answers' < length answers"
  by (auto simp: ask_def split: list.splits)

lemma ask_or_skip:
  "(if c then ask answers w else (Inr True, answers, w)) = (Inr b, answers', w')
   \<Longrightarrow> length answers' \<le> length answers"
  by (auto simp: ask_def split: if_splits list.splits)

lemma ocr_round_measure:
  assumes round: "ocr_round oc today ocr_attempts answers downloaded_pdfs w
      = (Inr True, answers', pdfs, w')"
    and incomplete: "count_ocr status_complete downloaded_pdfs \<noteq> length downloaded_pdfs"
  shows "ocr_measure (ocr_attempts + 1) answers' pdfs
         < ocr_measure ocr_attempts answers downloaded_pdfs"
proof -
  obtain answers1 w1 where
    first: "(if ocr_attempts \<ge> max_ocr_attempts \<and> count_ocr status_failed downloaded_pdfs > 0
            then ask answers w else (Inr True, answers, w)) = (Inr True, answers1, w1)"
    using round unfolding ocr_round_def
    by (auto split: prod.splits sum.splits bool.splits)
  have a1: "length answers1 \<le> length answers"
    using first by (rule ask_or_skip)
  obtain u pdfs2 w2 where
    pass: "ocr_items (oc ocr_attempts) today ocr_attempts [] downloaded_pdfs (emit OcrPass w1)
           = (Inr u, pdfs2, w2)"
    using round unfolding ocr_round_def first
    by (auto split: prod.splits sum.splits)
  have len: "length pdfs2 = length downloaded_pdfs"
    using length_ocr_items [of "oc ocr_attempts" today ocr_attempts "[]" downloaded_pdfs
        "emit OcrPass w1"] pass by simp
  note rest = round [unfolded ocr_round_def first prod.case sum.case bool.case pass]
  show ?thesis
  proof (cases "count_ocr status_complete pdfs2 < length downloaded_pdfs")
    case False
    then have "count_ocr status_complete pdfs2 = length pdfs2"
      using count_ocr_le [of status_complete pdfs2] len by simp
    moreover have "pdfs = pdfs2" "answers' = answers1"
      using rest False by simp_all
    ultimately show ?thesis
      using a1 incomplete by (auto simp: ocr_measure_def)
  next
    case True
    show ?thesis
    proof (cases "ocr_attempts + 1 < max_ocr_attempts")
      case small: True
      then have "pdfs = pdfs2" "answers' = answers1"
        using rest True by simp_all
      then show ?thesis
        using a1 incomplete small by (auto simp: ocr_measure_def)
    next
      case False
      then have "ask answers1 w2 = (Inr True, answers', w')" "pdfs = pdfs2"
        using rest True by (auto split: prod.splits sum.splits)
      then have "length answers' < length answers1"
        using ask_shorter by blast
      then show ?thesis
        using a1 incomplete by (auto simp: ocr_measure_def)
    qed
  qed
qed

function ocr_loop ::
  "(nat \<Rightarrow> nat \<Rightarrow> ocr_outcome) \<Rightarrow> pystr \<Rightarrow> nat \<Rightarrow> pystr list \<Rightarrow> entry list \<Rightarrow> world
   \<Rightarrow> (py_error + unit) \<times> pystr list \<times> entry list \<times> world" where
  "ocr_loop oc today ocr_attempts answers downloaded_pdfs w =
     (if count_ocr status_complete downloaded_pdfs = length downloaded_pdfs
      then (Inr (), answers, downloaded_pdfs, w)
      else
        (case ocr_round oc today ocr_attempts answers downloaded_pdfs w of
           (Inl e, answers', pdfs, w') \<Rightarrow> (Inl e, answers', pdfs, w')
         | (Inr False, answers', pdfs, w') \<Rightarrow> (Inr (), answers', pdfs, w')
         | (Inr True, answers', pdfs, w') \<Rightarrow>
             ocr_loop oc today (ocr_attempts + 1) answers' pdfs w'))"
  by pat_completeness auto
termination
proof (relation "measure (\<lambda>(oc, today, ocr_attempts, answers, pdfs, w).
    ocr_measure ocr_attempts answers pdfs)", goal_cases)
  case 1
  show ?case by simp
next
  case (2 oc today ocr_attempts answers downloaded_pdfs w x y b xa ya xb yb)
  then have "ocr_round oc today ocr_attempts answers downloaded_pdfs w = (Inr True, xa, xb, yb)"
    by simp
  then show ?case
    using 2(1) ocr_round_measure by simp
qed

declare ocr_loop.simps [simp del]

text \<open>
  The results file \<open>fbi_vault_<term>.json\<close> when the phase starts: missing,
  unreadable (the results become the empty list) or loaded.
\<close>

datatype results_file = NoResultsFile | ResultsUnreadable | ResultsLoaded "json list"

definition load_results :: "results_file \<Rightarrow> world \<Rightarrow> world" where
  "load_results f w =
     (case f of
        NoResultsFile \<Rightarrow> w
      | ResultsUnreadable \<Rightarrow> w\<lparr>ocr_results := []\<rparr>
      | ResultsLoaded rs \<Rightarrow> w\<lparr>ocr_results := rs\<rparr>)"

definition process_ocr_phase ::
  "results_file \<Rightarrow> (nat \<Rightarrow> nat \<Rightarrow> ocr_outcome) \<Rightarrow> pystr \<Rightarrow> pystr list \<Rightarrow> entry list \<Rightarrow> world
   \<Rightarrow> (py_error + unit) \<times> pystr list \<times> entry list \<times> world" where
  "process_ocr_phase f oc today answers downloaded_pdfs w =
     ocr_loop oc today 0 answers
       (case tracking_file w of None \<Rightarrow> downloaded_pdfs | Some loaded \<Rightarrow> loaded)
       (load_results f w)"

subsection \<open>\<open>verify_all_ocr_complete\<close> and \<open>run\<close>\<close>

text \<open>
  The warning lists \<open>os.path.basename(pdf['path'])\<close> for every entry that is not
  complete, before the operator is asked.
\<close>

fun paths_for_warning :: "entry list \<Rightarrow> py_error + unit" where
  "paths_for_warning [] = Inr ()"
| "paths_for_warning (pdf # rest) =
     (case map_of pdf k_path of
        None \<Rightarrow> Inl KeyError
      | Some (JStr p) \<Rightarrow> paths_for_warning rest
      | Some _ \<Rightarrow> Inl TypeError)"

definition verify_all_ocr_complete ::
  "pystr list \<Rightarrow> world \<Rightarrow> (py_error + bool) \<times> pystr list \<times> world" where
  "verify_all_ocr_complete answers w =
     (case tracking_file w of
        None \<Rightarrow> (Inr True, answers, w)
      | Some downloaded_pdfs \<Rightarrow>
          (let incomplete = filter (\<lambda>pdf. \<not> ocr_is status_complete pdf) downloaded_pdfs
           in if incomplete \<noteq> [] then
                (case paths_for_warning incomplete of
                   Inl e \<Rightarrow> (Inl e, answers, w)
                 | Inr u \<Rightarrow>
                     (case ask answers w of
                        (Inl e, answers', w') \<Rightarrow> (Inl e, answers', w')
                      | (Inr yes, answers', w') \<Rightarrow> (Inr yes, answers', w')))
              else (Inr True, answers, w)))"

text \<open>
  Everything outside the scraper that one call of \<open>run\<close> meets: whether the browser
  starts and the search page loads, the visits of the pages of results, the
  verification attempts, the date, and for each of the two OCR phases the results
  file and the outcomes.
\<close>

record run_env =
  env_startup_ok :: bool
  env_visits :: "page_visit list"
  env_verify :: "nat \<Rightarrow> verify_visit"
  env_today :: pystr
  env_results_file :: results_file
  env_ocr :: "nat \<Rightarrow> nat \<Rightarrow> ocr_outcome"
  env_results_file_again :: results_file
  env_ocr_again :: "nat \<Rightarrow> nat \<Rightarrow> ocr_outcome"

text \<open>
  The first phase of \<open>run\<close>: \<open>initialize_download_phase\<close>, the download loop and
  \<open>verify_downloads_complete\<close>.
\<close>

definition initialize_download_phase :: "world \<Rightarrow> entry list" where
  "initialize_download_phase w = (case tracking_file w of None \<Rightarrow> [] | Some loaded \<Rightarrow> loaded)"

definition download_phase ::
  "run_env \<Rightarrow> int option \<Rightarrow> world \<Rightarrow> (py_error + unit) \<times> entry list \<times> world" where
  "download_phase env max_documents w =
     (let downloaded_pdfs = initialize_download_phase w
      in case download_loop max_documents (env_visits env) downloaded_pdfs
                (length downloaded_pdfs) w of
           (Inl e, pdfs, w1) \<Rightarrow> (Inl e, pdfs, w1)
         | (Inr processed, pdfs, w1) \<Rightarrow>
             (case verify_downloads_complete (env_verify env) pdfs w1 of
                (Inl e, pdfs', w2) \<Rightarrow> (Inl e, pdfs', w2)
              | (Inr all_downloaded, pdfs', w2) \<Rightarrow> (Inr (), pdfs', w2)))"

text \<open>
  The second phase: the OCR phase, the question whether to leave with incomplete
  OCR and, when the operator says no, the OCR phase once more.
\<close>

definition ocr_phases ::
  "run_env \<Rightarrow> pystr list \<Rightarrow> entry list \<Rightarrow> world \<Rightarrow> (py_error + unit) \<times> pystr list \<times> world" where
  "ocr_phases env answers downloaded_pdfs w =
     (if downloaded_pdfs \<noteq> [] then
        (case process_ocr_phase (env_results_file env) (env_ocr env) (env_today env) answers
                downloaded_pdfs w of
           (Inl e, answers1, pdfs1, w1) \<Rightarrow> (Inl e, answers1, w1)
         | (Inr u, answers1, pdfs1, w1) \<Rightarrow>
             (case verify_all_ocr_complete answers1 w1 of
                (Inl e, answers2, w2) \<Rightarrow> (Inl e, answers2, w2)
              | (Inr True, answers2, w2) \<Rightarrow> (Inr (), answers2, w2)
              | (Inr False, answers2, w2) \<Rightarrow>
                  (case process_ocr_phase (env_results_file_again env) (env_ocr_again env)
                          (env_today env) answers2 downloaded_pdfs w2 of
                     (r, answers3, pdfs3, w3) \<Rightarrow> (r, answers3, w3))))
      else (Inr (), answers, w))"

text \<open>
  The cleanup removes the tracking file when it exists and the operator lets the
  script leave.
\<close>

definition cleanup :: "pystr list \<Rightarrow> world \<Rightarrow> (py_error + unit) \<times> pystr list \<times> world" where
  "cleanup answers w =
     (if tracking_file w \<noteq> None then
        (case verify_all_ocr_complete answers w of
           (Inl e, answers', w') \<Rightarrow> (Inl e, answers', w')
         | (Inr True, answers', w') \<Rightarrow> (Inr (), answers', w'\<lparr>tracking_file := None\<rparr>)
         | (Inr False, answers', w') \<Rightarrow> (Inr (), answers', w'))
      else (Inr (), answers, w))"

text \<open>
  \<open>run\<close>: an exception anywhere in the body of the \<open>try\<close> ends the run in the
  handler, which saves the results.
\<close>

definition run :: "run_env \<Rightarrow> int option \<Rightarrow> pystr list \<Rightarrow> world \<Rightarrow> world" where
  "run env max_documents answers w =
     (if \<not> env_startup_ok env then save_results w
      else
        (case download_phase env max_documents w of
           (Inl e, pdfs, w1) \<Rightarrow> save_results w1
         | (Inr u, pdfs, w1) \<Rightarrow>
             (case ocr_phases env answers pdfs w1 of
                (Inl e, answers1, w2) \<Rightarrow> save_results w2
              | (Inr u, answers1, w2) \<Rightarrow>
                  (case cleanup answers1 w2 of
                     (Inl e, answers2, w3) \<Rightarrow> save_results w3
                   | (Inr u, answers2, w3) \<Rightarrow> w3))))"

subsection \<open>Examples\<close>

text \<open>
  One PDF in the tracking list whose text extraction never gives enough text, and an
  operator who answers \<open>y\<close> three times and then \<open>n\<close>.
\<close>

definition one_pdf :: "entry list" where
  "one_pdf = [new_entry (str_of ''pdfs/a.pdf'') (JStr (str_of ''https://vault.fbi.gov/a''))
                (str_of ''A'')]"

definition no_text :: "nat \<Rightarrow> nat \<Rightarrow> ocr_outcome" where
  "no_text n i = OcrText [] None"

definition world_one :: world where
  "world_one = \<lparr>tracking_file = Some one_pdf, ocr_results = [], events = []\<rparr>"

definition yes_yes_yes_no :: "pystr list" where
  "yes_yes_yes_no = [str_of ''y'', str_of ''y'', str_of ''y'', str_of ''n'']"

text \<open>
  A link of a result page to the document \<open>A\<close>, and a site where no download
  ever produces a file.
\<close>

definition doc_a :: link where
  "doc_a = \<lparr>link_href = JStr (str_of ''https://vault.fbi.gov/a''), link_text = str_of ''A''\<rparr>"

definition never_downloads :: "nat \<Rightarrow> attempt" where
  "never_downloads n = DownloadFailed"

text \<open>
  A run from nothing: the search shows one page with the document \<open>B\<close>, which
  downloads at once; the verification finds one document available; the text of the
  PDF is sixty letters, and the operator is never asked.
\<close>

definition doc_b :: link where
  "doc_b = \<lparr>link_href = JStr (str_of ''https://vault.fbi.gov/b''), link_text = str_of ''B''\<rparr>"

definition page_one :: page_visit where
  "page_one =
     \<lparr>pv_links = [doc_b], pv_links_again = [doc_b],
      pv_rounds = [([doc_b], \<lambda>n. Downloaded (str_of ''pdfs/B.pdf''))], pv_next = False\<rparr>"

definition env_one :: run_env where
  "env_one =
     \<lparr>env_startup_ok = True, env_visits = [page_one],
      env_verify = (\<lambda>n. \<lparr>vv_total_available = 1, vv_found = []\<rparr>),
      env_today = str_of ''2024-01-01'', env_results_file = NoResultsFile,
      env_ocr = (\<lambda>n i. OcrText (replicate 60 97) None),
      env_results_file_again = NoResultsFile,
      env_ocr_again = (\<lambda>n i. OcrText [] None)\<rparr>"

definition world_empty :: world where
  "world_empty = \<lparr>tracking_file = None, ocr_results = [], events = []\<rparr>"

subsection \<open>Reading the record of events\<close>

fun is_attempt :: "event \<Rightarrow> bool" where
  "is_attempt (DownloadAttempt u) = True"
| "is_attempt _ = False"

fun is_pass :: "event \<Rightarrow> bool" where
  "is_pass OcrPass = True"
| "is_pass _ = False"

fun is_extraction_of :: "nat \<Rightarrow> event \<Rightarrow> bool" where
  "is_extraction_of i (OcrStarted j p) = (i = j)"
| "is_extraction_of i _ = False"

fun is_download_event :: "event \<Rightarrow> bool" where
  "is_download_event (DownloadAttempt u) = True"
| "is_download_event (PdfStored p) = True"
| "is_download_event _ = False"

fun is_ocr_event :: "event \<Rightarrow> bool" where
  "is_ocr_event (OcrStarted i p) = True"
| "is_ocr_event (ResultAppended d) = True"
| "is_ocr_event OcrPass = True"
| "is_ocr_event _ = False"

definition count_events :: "(event \<Rightarrow> bool) \<Rightarrow> event list \<Rightarrow> nat" where
  "count_events P evs = length (filter P evs)"

text \<open>
  \<open>grows P w w'\<close>: the world \<open>w'\<close> has the events of \<open>w\<close> followed by new events,
  and \<open>P\<close> holds of the new events.
\<close>

definition new_events :: "world \<Rightarrow> world \<Rightarrow> event list" where
  "new_events w w' = drop (length (events w)) (events w')"

definition grows :: "(event list \<Rightarrow> bool) \<Rightarrow> world \<Rightarrow> world \<Rightarrow> bool" where
  "grows P w w' = (take (length (events w)) (events w') = events w \<and> P (new_events w w'))"

text \<open>Every entry of a list is complete or failed.\<close>

definition all_done :: "entry list \<Rightarrow> bool" where
  "all_done pdfs = list_all (\<lambda>pdf. ocr_is status_complete pdf \<or> ocr_is status_failed pdf) pdfs"

text \<open>
  The answers the operator has given are the front of the list of answers; \<open>yes\<close>
  counts those that are a \<open>y\<close>.
\<close>

definition yes :: "pystr list \<Rightarrow> nat" where
  "yes used = length (filter answered_yes used)"

text \<open>
  What one round of the \<open>while True\<close> loop of \<open>process_ocr_phase\<close> adds to the record,
  when it starts with \<open>ocr_attempts\<close> passes done, ends with \<open>r\<close> and has consumed
  the answers \<open>used\<close>: one pass at most beyond those already paid for by the counter
  or by an answer \<open>y\<close>, and one extraction per PDF at most, none once the counter has
  reached the maximum. \<open>loop_ok\<close> is the same for the rest of the loop.
\<close>

definition round_ok ::
  "nat \<Rightarrow> (py_error + bool) \<Rightarrow> pystr list \<Rightarrow> event list \<Rightarrow> bool" where
  "round_ok ocr_attempts r used evs =
     (count_events is_pass evs
        + (if r = Inr True then max_ocr_attempts - (ocr_attempts + 1) else 0)
        \<le> (max_ocr_attempts - ocr_attempts) + yes used \<and>
      (\<forall>i. count_events (is_extraction_of i) evs
           \<le> (if ocr_attempts < max_ocr_attempts then 1 else 0)))"

definition loop_ok :: "nat \<Rightarrow> pystr list \<Rightarrow> event list \<Rightarrow> bool" where
  "loop_ok ocr_attempts used evs =
     (count_events is_pass evs \<le> (max_ocr_attempts - ocr_attempts) + yes used \<and>
      (\<forall>i. count_events (is_extraction_of i) evs \<le> max_ocr_attempts - ocr_attempts))"

subsection \<open>The shape of the tracking list\<close>

text \<open>
  An entry has the shape of the tracking file when its fields are exactly \<open>path\<close>,
  \<open>url\<close>, \<open>title\<close> and \<open>ocr\<close>, each once, and \<open>ocr\<close> is one of the three status
  words.
\<close>

definition entry_ok :: "entry \<Rightarrow> bool" where
  "entry_ok pdf =
     (distinct (map fst pdf) \<and> set (map fst pdf) = {k_path, k_url, k_title, k_ocr} \<and>
      (ocr_is status_pending pdf \<or> ocr_is status_complete pdf \<or> ocr_is status_failed pdf))"

text \<open>
  \<open>updated x y\<close>: the entry \<open>y\<close> is \<open>x\<close>, or \<open>x\<close> with its \<open>ocr\<close> field set to
  \<open>complete\<close> or to \<open>failed\<close>. \<open>follows a b\<close>: the list \<open>b\<close> is the list \<open>a\<close> with
  entries updated in this way, followed by new entries that are pending.
\<close>

definition updated :: "entry \<Rightarrow> entry \<Rightarrow> bool" where
  "updated x y = (y = x \<or> y = mark status_complete x \<or> y = mark status_failed x)"

definition follows :: "entry list \<Rightarrow> entry list \<Rightarrow> bool" where
  "follows a b =
     (length a \<le> length b \<and> list_all2 updated a (take (length a) b) \<and>
      list_all (ocr_is status_pending) (drop (length a) b))"

text \<open>
  \<open>chain_ok prev evs\<close>: every list written to the tracking file in \<open>evs\<close> has entries
  of the right shape and follows the list written before it, the first one the list
  \<open>prev\<close>.
\<close>

fun chain_ok :: "entry list \<Rightarrow> event list \<Rightarrow> bool" where
  "chain_ok prev [] = True"
| "chain_ok prev (TrackingWritten written # evs) =
     (list_all entry_ok written \<and> follows prev written \<and> chain_ok written evs)"
| "chain_ok prev (e # evs) = chain_ok prev evs"

subsection \<open>What each phase may record\<close>

text \<open>
  \<open>download_trace cur evs\<close> reads events as the download phase produces them,
  starting with the list \<open>cur\<close>: download attempts, PDFs stored, and writes of the
  tracking file, each with the list written before and one new pending entry at its
  end. It gives the last list, or \<open>None\<close> when an event is none of these.
\<close>

fun download_trace :: "entry list \<Rightarrow> event list \<Rightarrow> entry list option" where
  "download_trace cur [] = Some cur"
| "download_trace cur (DownloadAttempt u # evs) = download_trace cur evs"
| "download_trace cur (PdfStored p # evs) = download_trace cur evs"
| "download_trace cur (TrackingWritten written # evs) =
     (if written \<noteq> [] \<and> butlast written = cur \<and> entry_ok (last written) \<and>
         ocr_is status_pending (last written)
      then download_trace written evs else None)"
| "download_trace cur (e # evs) = None"

text \<open>
  \<open>ocr_trace cur evs\<close> reads events as the OCR phase produces them: no download
  attempt and no PDF stored; every text extraction is of an entry of the list, by its
  position and with the path recorded there; every write of the tracking file has
  the entries of the list written before, updated.
\<close>

fun ocr_trace :: "entry list \<Rightarrow> event list \<Rightarrow> entry list option" where
  "ocr_trace cur [] = Some cur"
| "ocr_trace cur (DownloadAttempt u # evs) = None"
| "ocr_trace cur (PdfStored p # evs) = None"
| "ocr_trace cur (OcrStarted i p # evs) =
     (if i < length cur \<and> map_of (cur ! i) k_path = Some p then ocr_trace cur evs else None)"
| "ocr_trace cur (TrackingWritten written # evs) =
     (if list_all2 updated cur written then ocr_trace written evs else None)"
| "ocr_trace cur (e # evs) = ocr_trace cur evs"

text \<open>
  A function call that starts with the list \<open>pdfs\<close> in the world \<open>w\<close> and ends with
  \<open>pdfs'\<close> in \<open>w'\<close> stays in its phase when the events it adds read as events of the
  phase and the tracking file holds the list whenever it was written; a call of the
  download phase also leaves the list of results as it was.
\<close>

definition in_step :: "entry list \<Rightarrow> world \<Rightarrow> entry list \<Rightarrow> world \<Rightarrow> bool" where
  "in_step pdfs w pdfs' w' =
     (tracking_file w' = Some pdfs' \<or> (tracking_file w' = tracking_file w \<and> pdfs' = pdfs))"

definition downloading :: "entry list \<Rightarrow> world \<Rightarrow> entry list \<Rightarrow> world \<Rightarrow> bool" where
  "downloading pdfs w pdfs' w' =
     (grows (\<lambda>evs. download_trace pdfs evs = Some pdfs') w w' \<and> in_step pdfs w pdfs' w' \<and>
      ocr_results w' = ocr_results w)"

definition recognising :: "entry list \<Rightarrow> world \<Rightarrow> entry list \<Rightarrow> world \<Rightarrow> bool" where
  "recognising pdfs w pdfs' w' =
     (grows (\<lambda>evs. ocr_trace pdfs evs = Some pdfs') w w' \<and> in_step pdfs w pdfs' w')"

text \<open>
  \<open>reads_recorded pdfs e\<close>: when \<open>e\<close> is the start of a text extraction, it is of an
  entry of \<open>pdfs\<close>, by its position and with the path recorded there.
\<close>

fun reads_recorded :: "entry list \<Rightarrow> event \<Rightarrow> bool" where
  "reads_recorded pdfs (OcrStarted i p) = (i < length pdfs \<and> map_of (pdfs ! i) k_path = Some p)"
| "reads_recorded pdfs e = True"

section \<open>Command lines\<close>

subsection \<open>The parser of the FBI Vault scraper\<close>














subsection \<open>The consolidation script\<close>


chapter \<open>The properties\<close>

section \<open>Strings: the last occurrence of a character\<close>

lemma rfind_absent: "c \<notin> set p \<Longrightarrow> rfind c p = - 1"
  by (simp add: rfind_def)

lemma rfind_last: "c \<notin> set b \<Longrightarrow> rfind c (a @ c # b) = int (length a)"
proof -
  assume "c \<notin> set b"
  then have "takeWhile (\<lambda>x. x \<noteq> c) (rev b @ c # rev a) = rev b"
    by (auto simp: takeWhile_tail)
  then show ?thesis by (simp add: rfind_def)
qed

lemma rfind_ge: "int (length a) \<le> rfind c (a @ c # b)"
proof -
  have "takeWhile (\<lambda>x. x \<noteq> c) (rev b @ c # rev a) = takeWhile (\<lambda>x. x \<noteq> c) (rev b)"
    by (simp add: takeWhile_tail)
  moreover have "length (takeWhile (\<lambda>x. x \<noteq> c) (rev b)) \<le> length b"
    using length_takeWhile_le [of "\<lambda>x. x \<noteq> c" "rev b"] by simp
  ultimately show ?thesis by (simp add: rfind_def)
qed

section \<open>\<open>sanitize_filename\<close>\<close>

lemma splitext_nodot:
  "46 \<notin> set p \<Longrightarrow> 92 \<notin> set p \<Longrightarrow> 47 \<notin> set p \<Longrightarrow> splitext p = (p, [])"
  by (simp add: splitext_def rfind_absent)

lemma splitext_lastdot:
  assumes "92 \<notin> set a" "47 \<notin> set a" "92 \<notin> set b" "47 \<notin> set b" "46 \<notin> set b"
  shows "splitext (a @ 46 # b) =
         (if \<exists>c\<in>set a. c \<noteq> 46 then (a, 46 # b) else (a @ 46 # b, []))"
proof -
  have "rfind 92 (a @ 46 # b) = - 1" "rfind 47 (a @ 46 # b) = - 1"
    using assms by (simp_all add: rfind_absent)
  moreover have "rfind 46 (a @ 46 # b) = int (length a)"
    using assms by (simp add: rfind_last)
  ultimately show ?thesis
    by (simp add: splitext_def list_ex_iff)
qed

lemma fst_splitext_cases:
  "fst (splitext p) = p \<or> fst (splitext p) = take (nat (rfind 46 p)) p"
  by (simp add: splitext_def Let_def)

lemma dot_in_root:
  assumes "46 \<in> set a"
  shows "46 \<in> set (fst (splitext (a @ 46 # b)))"
proof -
  have "length a \<le> nat (rfind 46 (a @ 46 # b))"
    using rfind_ge [of a 46 b] by simp
  then have "set a \<subseteq> set (take (nat (rfind 46 (a @ 46 # b))) (a @ 46 # b))"
    by (metis append_eq_conv_conj set_take_subset_set_take)
  then show ?thesis
    using assms fst_splitext_cases [of "a @ 46 # b"] by auto
qed

lemma clean_no_sep: "clean s \<Longrightarrow> no_sep s"
  by (auto simp: clean_def no_sep_def is_invalid_def invalid_chars_def)

lemma set_collapse_underscores: "set (collapse_underscores s) \<subseteq> set s"
  by (induction s rule: collapse_underscores.induct) auto

lemma set_strip_space_dot: "set (strip_space_dot s) \<subseteq> set s"
proof -
  have "set (dropWhile is_space_or_dot (rev (dropWhile is_space_or_dot s)))
        \<subseteq> set (rev (dropWhile is_space_or_dot s))"
    by (rule set_dropWhileD [THEN subsetI])
  also have "\<dots> \<subseteq> set s"
    using set_dropWhileD [of _ is_space_or_dot s] by auto
  finally show ?thesis by (simp add: strip_space_dot_def)
qed

lemma hd_strip_space_dot:
  "strip_space_dot s \<noteq> [] \<Longrightarrow> hd (strip_space_dot s) \<noteq> 46"
proof -
  let ?t = "dropWhile is_space_or_dot s"
  assume ne: "strip_space_dot s \<noteq> []"
  obtain u where u: "?t = strip_space_dot s @ u"
    unfolding strip_space_dot_def
    by (metis takeWhile_dropWhile_id rev_append rev_rev_ident)
  then have "?t \<noteq> []" using ne by auto
  then have "\<not> is_space_or_dot (hd ?t)" by (rule hd_dropWhile)
  moreover have "hd ?t = hd (strip_space_dot s)" using u ne by simp
  ultimately show ?thesis by (auto simp: is_space_or_dot_def)
qed

lemma clean_pipeline:
  "clean (strip_space_dot (collapse_underscores (remove_control (replace_invalid s))))"
proof -
  have "clean (remove_control (replace_invalid s))"
    by (auto simp: clean_def remove_control_def replace_invalid_def is_invalid_def
        invalid_chars_def is_control_def)
  then show ?thesis
    using set_collapse_underscores set_strip_space_dot unfolding clean_def by blast
qed

lemma clean_unnamed: "clean (str_of ''unnamed'')"
  by (simp add: clean_def str_of_def is_invalid_def invalid_chars_def is_control_def)


lemma good_or_unnamed:
  "good (or_unnamed (strip_space_dot (collapse_underscores (remove_control (replace_invalid s)))))"
proof -
  have "hd (str_of ''unnamed'') \<noteq> 46" "str_of ''unnamed'' \<noteq> []"
    by (simp_all add: str_of_def)
  then show ?thesis
    using clean_pipeline [of s] hd_strip_space_dot clean_unnamed
    by (auto simp: good_def or_unnamed_def)
qed

lemma good_guard_reserved: "good s \<Longrightarrow> good (guard_reserved up s)"
  by (auto simp: good_def guard_reserved_def clean_def is_invalid_def invalid_chars_def
      is_control_def)

lemma splitext_cases:
  assumes "no_sep s"
  obtains (nodot) "46 \<notin> set s" "splitext s = (s, [])"
  | (alldots) a b where "s = a @ 46 # b" "46 \<notin> set b" "\<forall>c\<in>set a. c = 46"
      "splitext s = (s, [])"
  | (ext) a b where "s = a @ 46 # b" "46 \<notin> set b" "\<exists>c\<in>set a. c \<noteq> 46"
      "splitext s = (a, 46 # b)"
proof (cases "46 \<in> set s")
  case False
  then show ?thesis using assms nodot by (simp add: splitext_nodot no_sep_def)
next
  case True
  then obtain a b where ab: "s = a @ 46 # b" "46 \<notin> set b"
    by (meson split_list_last)
  then have "splitext s = (if \<exists>c\<in>set a. c \<noteq> 46 then (a, 46 # b) else (s, []))"
    using assms splitext_lastdot [of a b] by (simp add: no_sep_def)
  then show ?thesis using ab alldots ext by (cases "\<exists>c\<in>set a. c \<noteq> 46") auto
qed

lemma upper_Cons_underscore: "upper up (95 # s) = 95 # upper up s"
  by (simp add: upper_def upper_char_def)

lemma underscore_not_reserved: "95 # s \<notin> set reserved"
  by (simp add: reserved_def str_of_def)

lemma dot_in_upper: "46 \<in> set s \<Longrightarrow> 46 \<in> set (upper up s)"
  by (force simp: upper_def upper_char_def)

lemma dot_not_reserved: "46 \<in> set s \<Longrightarrow> s \<notin> set reserved"
  by (auto simp: reserved_def str_of_def)

lemma upper_reserved: "s \<in> set reserved \<Longrightarrow> upper up s = s"
  by (auto simp: reserved_def str_of_def upper_def upper_char_def)

lemma root_of_underscore:
  assumes "no_sep s"
  shows "\<exists>t. fst (splitext (95 # s)) = 95 # t"
proof -
  have ns: "no_sep (95 # s)" using assms by (simp add: no_sep_def)
  from ns show ?thesis
  proof (cases rule: splitext_cases)
    case nodot
    then show ?thesis by simp
  next
    case (alldots a b)
    from alldots(4) show ?thesis by (metis fst_conv)
  next
    case (ext a b)
    from ext(3) obtain x a' where "a = x # a'" by (cases a) auto
    with ext(1) have "a = 95 # a'" by simp
    with ext(4) show ?thesis by simp
  qed
qed

lemma guard_not_reserved:
  assumes "good s"
  shows "upper up (fst (splitext (guard_reserved up s))) \<notin> set reserved"
proof (cases "upper up (fst (splitext s)) \<in> set reserved")
  case False
  then show ?thesis by (simp add: guard_reserved_def)
next
  case True
  have "no_sep s" using assms by (simp add: good_def clean_no_sep)
  then obtain t where "fst (splitext (95 # s)) = 95 # t"
    using root_of_underscore by blast
  then show ?thesis
    using True by (simp add: guard_reserved_def upper_Cons_underscore underscore_not_reserved)
qed


lemma dots_eq: "str_of ''...'' = [46, 46, 46]"
  by (simp add: str_of_def)

lemma clean_dot: "\<not> is_invalid 46 \<and> \<not> is_control 46"
  by (simp add: is_invalid_def invalid_chars_def is_control_def)

lemma limit_length_short: "length g \<le> 100 \<Longrightarrow> limit_length g = g"
  by (simp add: limit_length_def)

lemma limit_length_long:
  assumes g: "good g" and long: "100 < length g"
  obtains (nodot) "limit_length g = take 95 g @ [46, 46, 46]"
  | (ext) a b where "g = a @ 46 # b" "46 \<notin> set b" "a \<noteq> []" "hd a \<noteq> 46"
      "limit_length g = take 95 a @ [46, 46, 46] @ 46 # b"
proof -
  have ns: "no_sep g" and hd: "hd g \<noteq> 46"
    using g by (simp_all add: good_def clean_no_sep)
  from ns show ?thesis
  proof (cases rule: splitext_cases)
    case nodot1: nodot
    then show ?thesis using long nodot by (simp add: limit_length_def dots_eq)
  next
    case (alldots a b)
    then have "hd g = 46" by (cases a) auto
    then show ?thesis using hd by simp
  next
    case ext1: (ext a b)
    then have "a \<noteq> []" by auto
    moreover have "hd a \<noteq> 46" using hd ext1(1) \<open>a \<noteq> []\<close> by simp
    moreover have "limit_length g = take 95 a @ [46, 46, 46] @ 46 # b"
      using long ext1(4) by (simp add: limit_length_def dots_eq)
    ultimately show ?thesis using ext1(1,2) ext by blast
  qed
qed

lemma limit_length_clean:
  assumes g: "good g"
  shows "clean (limit_length g)"
proof (cases "100 < length g")
  case False
  then show ?thesis using g by (simp add: limit_length_short good_def)
next
  case True
  have cl: "clean g" using g by (simp add: good_def)
  from g True show ?thesis
  proof (cases rule: limit_length_long)
    case nodot
    then show ?thesis
      using cl clean_dot by (auto simp: clean_def dest: in_set_takeD)
  next
    case (ext a b)
    then show ?thesis
      using cl clean_dot by (auto simp: clean_def dest: in_set_takeD)
  qed
qed

lemma limit_length_nonempty:
  assumes g: "good g"
  shows "limit_length g \<noteq> []"
proof (cases "100 < length g")
  case False
  then show ?thesis using g by (simp add: limit_length_short good_def)
next
  case True
  from g True show ?thesis
    by (cases rule: limit_length_long) simp_all
qed

lemma limit_length_not_reserved:
  assumes g: "good g" and nr: "upper up (fst (splitext g)) \<notin> set reserved"
  shows "upper up (fst (splitext (limit_length g))) \<notin> set reserved"
proof (cases "100 < length g")
  case False
  then show ?thesis using nr by (simp add: limit_length_short)
next
  case True
  have "46 \<in> set (fst (splitext (limit_length g)))"
    using g True
  proof (cases rule: limit_length_long)
    case nodot
    then show ?thesis
      using dot_in_root [of "take 95 g @ [46, 46]" "[]"] by simp
  next
    case (ext a b)
    then show ?thesis
      using dot_in_root [of "take 95 a @ [46, 46, 46]" b] by simp
  qed
  then show ?thesis
    using dot_in_upper dot_not_reserved by blast
qed

lemma limit_length_bound:
  assumes g: "good g"
  shows "length (limit_length g) \<le> max 100 (98 + length (snd (splitext (limit_length g))))"
proof (cases "100 < length g")
  case False
  then show ?thesis by (simp add: limit_length_short)
next
  case True
  have ns: "no_sep g" using g by (simp add: good_def clean_no_sep)
  from g True show ?thesis
  proof (cases rule: limit_length_long)
    case nodot
    then show ?thesis by simp
  next
    case (ext a b)
    have "hd a \<in> set (take 95 a)"
      using ext(3) by (cases a) simp_all
    then have "\<exists>c\<in>set (take 95 a @ [46, 46, 46]). c \<noteq> 46"
      using ext(4) by auto
    moreover have "92 \<notin> set (take 95 a @ [46, 46, 46])" "47 \<notin> set (take 95 a @ [46, 46, 46])"
      "92 \<notin> set b" "47 \<notin> set b"
      using ns ext(1) by (auto simp: no_sep_def dest: in_set_takeD)
    ultimately have "splitext ((take 95 a @ [46, 46, 46]) @ 46 # b)
        = (take 95 a @ [46, 46, 46], 46 # b)"
      using splitext_lastdot [of "take 95 a @ [46, 46, 46]" b] ext(2) by simp
    then show ?thesis using ext(5) by simp
  qed
qed

subsection \<open>Claim C10: what \<open>sanitize_filename\<close> returns\<close>

text \<open>
  The length part of C10 does not hold. A name longer than 100 code points is cut to
  the first 95 code points of its root, three dots and the whole extension, so its
  length is 98 plus the length of the extension: 97 letters followed by \<open>.pdf\<close> give
  102 code points.
\<close>

theorem sanitize_filename_length_counterexample:
  "\<not> length (sanitize_filename identity_table (replicate 97 97 @ str_of ''.pdf'')) \<le> 100"
proof -
  have "length (sanitize_filename identity_table (replicate 97 97 @ str_of ''.pdf'')) = 102"
    by code_simp
  then show ?thesis by simp
qed

text \<open>
  C10, amended. For every input string and every upper-case table, the result of
  \<open>sanitize_filename\<close> is non-empty, contains none of the nine forbidden characters
  and no ASCII control character, its name without extension (the root that
  \<open>os.path.splitext\<close> gives) is not a reserved device name, neither as it stands nor
  in upper case, and its length is at most 100 or at most 98 plus the length of its
  extension, whichever is larger.
\<close>

theorem sanitize_filename_props:
  "sanitize_filename up filename \<noteq> [] \<and>
   (\<forall>c\<in>set (sanitize_filename up filename). \<not> is_invalid c \<and> \<not> is_control c) \<and>
   fst (splitext (sanitize_filename up filename)) \<notin> set reserved \<and>
   upper up (fst (splitext (sanitize_filename up filename))) \<notin> set reserved \<and>
   length (sanitize_filename up filename)
     \<le> max 100 (98 + length (snd (splitext (sanitize_filename up filename))))"
proof (cases "filename = []")
  case True
  have "splitext (str_of ''unnamed'') = (str_of ''unnamed'', [])"
    by (rule splitext_nodot) (simp_all add: str_of_def)
  moreover have "str_of ''unnamed'' \<notin> set reserved"
    "upper up (str_of ''unnamed'') \<notin> set reserved"
    by (simp_all add: reserved_def str_of_def upper_def upper_char_def)
  ultimately show ?thesis
    using True clean_unnamed
    by (simp add: sanitize_filename_def clean_def) (simp add: str_of_def)
next
  case False
  define f where "f = or_unnamed (strip_space_dot
     (collapse_underscores (remove_control (replace_invalid filename))))"
  define g where "g = guard_reserved up f"
  have r: "sanitize_filename up filename = limit_length g"
    using False by (simp add: sanitize_filename_def f_def g_def)
  have "good f" unfolding f_def by (rule good_or_unnamed)
  then have g: "good g" and nr: "upper up (fst (splitext g)) \<notin> set reserved"
    unfolding g_def by (simp_all add: good_guard_reserved guard_not_reserved)
  have u: "upper up (fst (splitext (limit_length g))) \<notin> set reserved"
    using g nr by (rule limit_length_not_reserved)
  then have "fst (splitext (limit_length g)) \<notin> set reserved"
    using upper_reserved by force
  then show ?thesis
    using limit_length_clean [OF g] limit_length_nonempty [OF g] limit_length_bound [OF g] u
    unfolding r clean_def by simp
qed

theorem sanitize_filename_props_witness:
  "sanitize_filename identity_table (str_of ''con.txt'') = str_of ''_con.txt'' \<and>
   str_of ''_con.txt'' \<noteq> [] \<and>
   clean (str_of ''_con.txt'') \<and>
   fst (splitext (str_of ''_con.txt'')) \<notin> set reserved \<and>
   upper identity_table (fst (splitext (str_of ''_con.txt''))) \<notin> set reserved \<and>
   length (str_of ''_con.txt'') \<le> max 100 (98 + length (snd (splitext (str_of ''_con.txt''))))"
proof -
  have e: "sanitize_filename identity_table (str_of ''con.txt'') = str_of ''_con.txt''"
    by code_simp
  show ?thesis
    using sanitize_filename_props [of identity_table "str_of ''con.txt''"]
    unfolding e clean_def by simp
qed

section \<open>The consolidated metadata and the search\<close>









subsection \<open>Claim C9: what the search finds in a consolidated master file\<close>




section \<open>The PDF compression\<close>

lemma with_suffix_differs:
  assumes "with_suffix name (str_of ''.temp.pdf'') = Inr temp_name"
  shows "temp_name \<noteq> name"
proof (cases "suffix name = []")
  case True
  then show ?thesis using assms
    by (auto simp: with_suffix_def str_of_def split: if_splits)
next
  case False
  then have i: "0 < rfind 46 name" "rfind 46 name < int (length name) - 1"
    and s: "suffix name = drop (nat (rfind 46 name)) name"
    by (auto simp: suffix_def Let_def split: if_splits)
  then have "46 \<in> set name" by (auto simp: rfind_def split: if_splits)
  then obtain a b where ab: "name = a @ 46 # b" "46 \<notin> set b"
    by (meson split_list_last)
  then have "rfind 46 name = int (length a)" by (simp add: rfind_last)
  then have s': "suffix name = 46 # b" using s ab by simp
  then have "temp_name = a @ str_of ''.temp.pdf''"
    using assms ab by (auto simp: with_suffix_def split: if_splits)
  then show ?thesis using ab by (auto simp: str_of_def)
qed


lemma process_pdf_new:
  assumes src: "disk st (Path Source dirs name) = Some original"
    and out: "disk st (Path Destination dirs name) = None"
    and t: "with_suffix name (str_of ''.temp.pdf'') = Inr temp_name"
    and fs1: "fs1 = snd (compress_with_ghostscript gs (Path Destination dirs temp_name) (disk st))"
  shows "\<exists>st'. process_pdf gs dirs name st = Inr st' \<and>
      disk st' (Path Source dirs name) = Some original \<and>
      disk st' (Path Destination dirs temp_name) = None \<and>
      disk st' (Path Destination dirs name) =
        (case fs1 (Path Destination dirs temp_name) of
           None \<Rightarrow> Some original
         | Some compressed \<Rightarrow>
             if gs_success gs \<and> length compressed < length original
             then Some compressed else Some original)"
proof -
  have neq: "temp_name \<noteq> name" using t by (rule with_suffix_differs)
  show ?thesis
  proof (cases "fs1 (Path Destination dirs temp_name)")
    case None
    then show ?thesis
      using src out t neq fs1
      by (auto simp: process_pdf_def get_file_size_mb_def compress_with_ghostscript_def
          copy2_def unlink_if_exists_def Let_def split: option.splits)
  next
    case (Some compressed)
    then show ?thesis
      using src out t neq fs1
      by (auto simp: process_pdf_def get_file_size_mb_def compress_with_ghostscript_def
          copy2_def move_def unlink_if_exists_def ALWAYS_KEEP_SMALLEST_def Let_def
          split: option.splits)
  qed
qed

subsection \<open>The output of one PDF\<close>

text \<open>
  The body of the loop, for one PDF whose output path is free: it leaves at the output
  path the file of Ghostscript when the run succeeded and the file is strictly
  smaller than the original, and the original otherwise; the output is never larger
  than the original, the temporary path is empty afterwards and the source is
  unchanged.
\<close>

lemma process_pdf_output:
  assumes src: "disk st (Path Source dirs name) = Some original"
    and out: "disk st (Path Destination dirs name) = None"
    and name: "name \<noteq> []"
  shows "\<exists>st' temp_name result.
      with_suffix name (str_of ''.temp.pdf'') = Inr temp_name \<and>
      process_pdf gs dirs name st = Inr st' \<and>
      disk st' (Path Destination dirs name) = Some result \<and>
      length result \<le> length original \<and>
      result =
        (case snd (compress_with_ghostscript gs (Path Destination dirs temp_name) (disk st))
                (Path Destination dirs temp_name) of
           None \<Rightarrow> original
         | Some compressed \<Rightarrow>
             if gs_success gs \<and> length compressed < length original
             then compressed else original) \<and>
      disk st' (Path Destination dirs temp_name) = None \<and>
      disk st' (Path Source dirs name) = Some original"
proof -
  obtain temp_name where t: "with_suffix name (str_of ''.temp.pdf'') = Inr temp_name"
    using name by (cases "suffix name = []") (simp_all add: with_suffix_def)
  define fs1 where
    "fs1 = snd (compress_with_ghostscript gs (Path Destination dirs temp_name) (disk st))"
  obtain st' where st': "process_pdf gs dirs name st = Inr st'"
    "disk st' (Path Source dirs name) = Some original"
    "disk st' (Path Destination dirs temp_name) = None"
    "disk st' (Path Destination dirs name) =
        (case fs1 (Path Destination dirs temp_name) of
           None \<Rightarrow> Some original
         | Some compressed \<Rightarrow>
             if gs_success gs \<and> length compressed < length original
             then Some compressed else Some original)"
    using process_pdf_new [OF src out t fs1_def] by blast
  define result where
    "result = (case fs1 (Path Destination dirs temp_name) of
           None \<Rightarrow> original
         | Some compressed \<Rightarrow>
             if gs_success gs \<and> length compressed < length original
             then compressed else original)"
  have "disk st' (Path Destination dirs name) = Some result"
    using st'(4) by (simp add: result_def split: option.splits)
  moreover have "length result \<le> length original"
    by (simp add: result_def split: option.splits)
  ultimately show ?thesis
    using t st'(1-3) unfolding result_def fs1_def by blast
qed

lemma process_pdf_output_example:
  "disk st_one (Path Source [] (str_of ''a.pdf'')) = Some [1, 2, 3, 4, 5] \<and>
   disk st_one (Path Destination [] (str_of ''a.pdf'')) = None \<and>
   str_of ''a.pdf'' \<noteq> [] \<and>
   (\<exists>st' temp_name result.
      with_suffix (str_of ''a.pdf'') (str_of ''.temp.pdf'') = Inr temp_name \<and>
      process_pdf gs_smaller [] (str_of ''a.pdf'') st_one = Inr st' \<and>
      disk st' (Path Destination [] (str_of ''a.pdf'')) = Some result \<and>
      length result \<le> length [1, 2, 3, 4, 5 :: nat] \<and>
      result =
        (case snd (compress_with_ghostscript gs_smaller (Path Destination [] temp_name)
                     (disk st_one))
                (Path Destination [] temp_name) of
           None \<Rightarrow> [1, 2, 3, 4, 5]
         | Some compressed \<Rightarrow>
             if gs_success gs_smaller \<and> length compressed < length [1, 2, 3, 4, 5 :: nat]
             then compressed else [1, 2, 3, 4, 5]) \<and>
      disk st' (Path Destination [] temp_name) = None \<and>
      disk st' (Path Source [] (str_of ''a.pdf'')) = Some [1, 2, 3, 4, 5])"
proof -
  have h: "disk st_one (Path Source [] (str_of ''a.pdf'')) = Some [1, 2, 3, 4, 5]"
    "disk st_one (Path Destination [] (str_of ''a.pdf'')) = None"
    "str_of ''a.pdf'' \<noteq> []"
    by (simp_all add: st_one_def fs_one_def str_of_def)
  show ?thesis
    using h process_pdf_output [OF h, of gs_smaller] by simp
qed

text \<open>
  In the example Ghostscript leaves two bytes for a source of five: the two bytes are
  the output.
\<close>

lemma process_pdf_example:
  "map_sum id (\<lambda>st'. (disk st' (Path Destination [] (str_of ''a.pdf'')),
                      disk st' (Path Destination [] (str_of ''a.temp.pdf''))))
     (process_pdf gs_smaller [] (str_of ''a.pdf'') st_one) = Inr (Some [7, 8], None)"
  by (simp add: process_pdf_def fs_one_def st_one_def gs_smaller_def get_file_size_mb_def
      with_suffix_def suffix_def rfind_def str_of_def compress_with_ghostscript_def
      move_def ALWAYS_KEEP_SMALLEST_def)

subsection \<open>Claim C8: the outputs after the run\<close>


section \<open>The CIA reading room scraper\<close>


lemma listdir_write_file:
  "set (listdir (write_file filename content d)) = insert filename (set (listdir d))"
  by (simp add: listdir_def write_file_def AList.dom_update)





subsection \<open>Claim C2: what an exception on one item does to the loop\<close>




section \<open>Running a script again\<close>

subsection \<open>The CIA scraper\<close>

lemma scrape_loop_unwritten:
  assumes "\<forall>url\<in>set urls. last_component url @ html \<noteq> filename"
  shows "map_of (layer_1 (scrape_loop fetch urls st)) filename = map_of (layer_1 st) filename"
  using assms
proof (induction urls arbitrary: st)
  case Nil
  then show ?case by simp
next
  case (Cons url urls)
  then show ?case
    by (cases "fetch url") (auto simp: write_file_def update_conv')
qed

text \<open>
  What the second run does for a document whose page the first run saved, as long as
  deleting every \<open>.html\<close> from the file name gives back the identifier: the URL is
  not requested again and the file keeps its content.
\<close>

lemma cia_rerun_skips:
  assumes saved: "last_component url @ html \<in> set (listdir (layer_1 st))"
    and plain: "remove_all html (last_component url @ html) = last_component url"
  shows "url \<notin> set (urls_to_scrape (layer_1 st) urls)"
    and "map_of (layer_1 (scrape_document_pages fetch urls st)) (last_component url @ html)
         = map_of (layer_1 st) (last_component url @ html)"
proof -
  have "endswith (last_component url @ html) html"
    by (simp add: endswith_def)
  then have d: "last_component url \<in> set (downloaded (layer_1 st))"
    using saved plain by (force simp: downloaded_def)
  then show "url \<notin> set (urls_to_scrape (layer_1 st) urls)"
    by (simp add: urls_to_scrape_def)
  have "\<forall>u\<in>set (urls_to_scrape (layer_1 st) urls).
      last_component u @ html \<noteq> last_component url @ html"
    using d by (auto simp: urls_to_scrape_def)
  then show "map_of (layer_1 (scrape_document_pages fetch urls st)) (last_component url @ html)
         = map_of (layer_1 st) (last_component url @ html)"
    unfolding scrape_document_pages_def by (rule scrape_loop_unwritten)
qed

subsection \<open>Claim C5: a document identifier that contains \<open>.html\<close>\<close>

text \<open>
  C5 fails in the CIA scraper for a document whose identifier contains \<open>.html\<close>. The
  set of documents already downloaded is computed with \<open>filename.replace(".html", "")\<close>,
  which deletes every occurrence and not only the extension: for the saved file
  \<open>cia-rdp96-x.html.html\<close> it gives \<open>cia-rdp96-x\<close>, not the identifier
  \<open>cia-rdp96-x.html\<close>. The second run requests that document again and overwrites
  its file, while the document \<open>cia-rdp96-y\<close> is skipped.
\<close>

theorem cia_rerun_fetches_again:
  "downloaded (layer_1 after_first_run) = [str_of ''cia-rdp96-x'', str_of ''cia-rdp96-y''] \<and>
   last_component url_html = str_of ''cia-rdp96-x.html'' \<and>
   scrape_document_pages fetch_new [url_html, url_plain] after_first_run =
     \<lparr>layer_1 = [(str_of ''cia-rdp96-x.html.html'', str_of ''new''),
                 (str_of ''cia-rdp96-y.html'', str_of ''old'')],
      requested = [url_html]\<rparr>"
proof -
  have "downloaded (layer_1 after_first_run) = [str_of ''cia-rdp96-x'', str_of ''cia-rdp96-y'']"
    by code_simp
  moreover have "last_component url_html = str_of ''cia-rdp96-x.html''"
    by code_simp
  moreover have "scrape_document_pages fetch_new [url_html, url_plain] after_first_run =
     \<lparr>layer_1 = [(str_of ''cia-rdp96-x.html.html'', str_of ''new''),
                 (str_of ''cia-rdp96-y.html'', str_of ''old'')],
      requested = [url_html]\<rparr>"
    by code_simp
  ultimately show ?thesis by blast
qed

subsection \<open>The state department scraper and the PDF repair\<close>

text \<open>
  The other two scripts test for the output file itself. In \<open>layer_0\<close> a date whose
  CSV exists is not submitted again, and no CSV that exists at the start is written.
\<close>

lemma layer_0_loop_rerun:
  assumes "layer_0_loop page dates st = Inr st'"
  shows "set (listdir (tables st)) \<subseteq> set (listdir (tables st'))"
    and "\<forall>f\<in>set (listdir (tables st)). map_of (tables st') f = map_of (tables st) f"
    and "\<forall>d\<in>set (submitted st').
           d \<in> set (submitted st) \<or> csv_name d \<notin> set (listdir (tables st))"
  using assms
proof (induction dates arbitrary: st)
  case Nil
  {
    case 1 then show ?case by simp
  next
    case 2 then show ?case by simp
  next
    case 3 then show ?case by simp
  }
next
  case (Cons date_val dates)
  {
    case 1
    then show ?case
      using Cons.IH(1)
      by (fastforce simp: listdir_write_file split: if_splits submit_result.splits)
  next
    case 2
    show ?case
    proof (cases "csv_name date_val \<in> set (listdir (tables st))")
      case True
      then show ?thesis using 2 Cons.IH(2) by simp
    next
      case False
      show ?thesis
      proof (cases "page date_val")
        case NavigationRaises
        then show ?thesis using 2 False by simp
      next
        case ReadRaises
        then show ?thesis
          using 2 False Cons.IH(2) [of "st\<lparr>submitted := submitted st @ [date_val]\<rparr>"] by simp
      next
        case NoTables
        then show ?thesis
          using 2 False Cons.IH(2) [of "st\<lparr>submitted := submitted st @ [date_val]\<rparr>"] by simp
      next
        case (Table csv)
        let ?st = "st\<lparr>tables := write_file (csv_name date_val) csv (tables st),
                   submitted := submitted st @ [date_val]\<rparr>"
        have run: "layer_0_loop page dates ?st = Inr st'"
          using 2 False Table by simp
        have "\<forall>f\<in>set (listdir (tables ?st)). map_of (tables st') f = map_of (tables ?st) f"
          using run by (rule Cons.IH(2))
        moreover have "\<forall>f\<in>set (listdir (tables st)).
            f \<in> set (listdir (tables ?st)) \<and> map_of (tables ?st) f = map_of (tables st) f"
        proof
          fix f
          assume f: "f \<in> set (listdir (tables st))"
          then have "f \<in> set (listdir (tables ?st))"
            by (simp add: listdir_write_file)
          moreover have "f \<noteq> csv_name date_val" using f False by auto
          then have "map_of (tables ?st) f = map_of (tables st) f"
            by (simp add: write_file_def update_conv')
          ultimately show "f \<in> set (listdir (tables ?st)) \<and>
              map_of (tables ?st) f = map_of (tables st) f" by simp
        qed
        ultimately show ?thesis by simp
      qed
    qed
  next
    case 3
    show ?case
    proof (cases "csv_name date_val \<in> set (listdir (tables st))")
      case True
      then show ?thesis using 3 Cons.IH(3) by simp
    next
      case False
      show ?thesis
      proof (cases "page date_val")
        case NavigationRaises
        then show ?thesis using 3 False by simp
      next
        case ReadRaises
        then show ?thesis
          using 3 False Cons.IH(3) [of "st\<lparr>submitted := submitted st @ [date_val]\<rparr>"]
          by auto
      next
        case NoTables
        then show ?thesis
          using 3 False Cons.IH(3) [of "st\<lparr>submitted := submitted st @ [date_val]\<rparr>"]
          by auto
      next
        case (Table csv)
        let ?st = "st\<lparr>tables := write_file (csv_name date_val) csv (tables st),
                   submitted := submitted st @ [date_val]\<rparr>"
        have run: "layer_0_loop page dates ?st = Inr st'"
          using 3 False Table by simp
        have "\<forall>d\<in>set (submitted st').
           d \<in> set (submitted ?st) \<or> csv_name d \<notin> set (listdir (tables ?st))"
          using run by (rule Cons.IH(3))
        then show ?thesis
          using False by (auto simp: listdir_write_file)
      qed
    qed
  }
qed

text \<open>
  In the repair script a PDF whose output exists with more than 1024 bytes is not
  among the PDFs processed, and the run leaves its output as it is.
\<close>

lemma try_methods_elsewhere:
  "p \<noteq> output_path \<Longrightarrow> snd (try_methods runs output_path fs) p = fs p"
  by (induction runs arbitrary: fs) (auto simp: Let_def split: option.splits)

lemma repair_loop_elsewhere:
  assumes "\<forall>(dirs, name, runs)\<in>set items. Path Destination dirs name \<noteq> p"
  shows "repaired_files (repair_loop items st) p = repaired_files st p"
  using assms
proof (induction items arbitrary: st)
  case Nil
  then show ?case by simp
next
  case (Cons item items)
  obtain dirs name runs where item: "item = (dirs, name, runs)" by (cases item)
  then have "Path Destination dirs name \<noteq> p" using Cons.prems by auto
  then show ?case
    using Cons item by (simp add: try_methods_elsewhere)
qed

lemma repair_loop_processed:
  "repair_log (repair_loop items st)
   = repair_log st @ map (\<lambda>(dirs, name, runs). Path Source dirs name) items"
  by (induction items arbitrary: st) auto

lemma repair_main_skips:
  assumes "exists_over_1024 (repaired_files st) (Path Destination dirs name)"
  shows "repair_log (repair_main all_pdfs st)
         = repair_log st @ map (\<lambda>(dirs, name, runs). Path Source dirs name)
             (pdfs_to_process (repaired_files st) all_pdfs)"
    and "Path Source dirs name
         \<notin> set (map (\<lambda>(dirs, name, runs). Path Source dirs name)
             (pdfs_to_process (repaired_files st) all_pdfs))"
    and "repaired_files (repair_main all_pdfs st) (Path Destination dirs name)
         = repaired_files st (Path Destination dirs name)"
proof -
  show "repair_log (repair_main all_pdfs st)
         = repair_log st @ map (\<lambda>(dirs, name, runs). Path Source dirs name)
             (pdfs_to_process (repaired_files st) all_pdfs)"
    by (simp add: repair_main_def repair_loop_processed)
  show "Path Source dirs name
         \<notin> set (map (\<lambda>(dirs, name, runs). Path Source dirs name)
             (pdfs_to_process (repaired_files st) all_pdfs))"
    using assms by (auto simp: pdfs_to_process_def)
  have "\<forall>(d, n, r)\<in>set (pdfs_to_process (repaired_files st) all_pdfs).
      Path Destination d n \<noteq> Path Destination dirs name"
    using assms by (auto simp: pdfs_to_process_def)
  then show "repaired_files (repair_main all_pdfs st) (Path Destination dirs name)
         = repaired_files st (Path Destination dirs name)"
    unfolding repair_main_def by (rule repair_loop_elsewhere)
qed

section \<open>The FBI Vault scraper\<close>

subsection \<open>Worlds that grow\<close>

lemma grows_iff: "grows P w w' \<longleftrightarrow> (\<exists>evs. events w' = events w @ evs \<and> P evs)"
proof
  assume "grows P w w'"
  then have "events w' = events w @ new_events w w'" "P (new_events w w')"
    unfolding grows_def new_events_def by (metis append_take_drop_id, simp)
  then show "\<exists>evs. events w' = events w @ evs \<and> P evs" by blast
next
  assume "\<exists>evs. events w' = events w @ evs \<and> P evs"
  then show "grows P w w'" by (auto simp: grows_def new_events_def)
qed

lemma growsI: "events w' = events w @ evs \<Longrightarrow> P evs \<Longrightarrow> grows P w w'"
  unfolding grows_iff by blast

lemma growsE:
  assumes "grows P w w'"
  obtains evs where "events w' = events w @ evs" "P evs"
  using assms unfolding grows_iff by blast

lemma grows_after:
  assumes "events w1 = events w @ pre" "grows Q w1 w2" "\<And>evs. Q evs \<Longrightarrow> R (pre @ evs)"
  shows "grows R w w2"
proof -
  obtain evs where "events w2 = events w1 @ evs" "Q evs"
    using assms(2) by (rule growsE)
  then have "events w2 = events w @ (pre @ evs)" "R (pre @ evs)"
    using assms(1,3) by simp_all
  then show ?thesis by (rule growsI)
qed

lemma grows_trans:
  assumes "grows P w w1" "grows Q w1 w2" "\<And>a b. P a \<Longrightarrow> Q b \<Longrightarrow> R (a @ b)"
  shows "grows R w w2"
proof -
  obtain pre where pre: "events w1 = events w @ pre" "P pre"
    using assms(1) by (rule growsE)
  show ?thesis
    using pre(1) assms(2) by (rule grows_after) (use pre(2) assms(3) in blast)
qed

lemma grows_mono: "grows P w w' \<Longrightarrow> (\<And>evs. P evs \<Longrightarrow> Q evs) \<Longrightarrow> grows Q w w'"
  unfolding grows_iff by blast

lemma events_emit [simp]: "events (emit e w) = events w @ [e]"
  by (simp add: emit_def)

lemma events_write_tracking [simp]:
  "events (write_tracking pdfs w) = events w @ [TrackingWritten pdfs]"
  by (simp add: write_tracking_def)

lemma events_save_results [simp]: "events (save_results w) = events w @ [ResultsSaved]"
  by (simp add: save_results_def)

lemma count_events_append [simp]:
  "count_events P (a @ b) = count_events P a + count_events P b"
  by (simp add: count_events_def)

lemma count_events_Nil [simp]: "count_events P [] = 0"
  by (simp add: count_events_def)

lemma count_events_Cons [simp]:
  "count_events P (e # evs) = (if P e then 1 else 0) + count_events P evs"
  by (simp add: count_events_def)

lemma retry_loop_attempts:
  "grows (\<lambda>evs. count_events is_attempt evs \<le> max_retries - retry_count) w
     (snd (snd (retry_loop max_retries attempts l retry_count pdfs dp w)))"
proof (induction max_retries attempts l retry_count pdfs dp w rule: retry_loop.induct)
  case (1 max_retries attempts l retry_count downloaded_pdfs documents_processed w)
  show ?case
  proof (cases "retry_count < max_retries")
    case False
    then show ?thesis
      by (subst retry_loop.simps) (simp add: growsI [where evs = "[]"])
  next
    case True
    define w1 where "w1 = emit (DownloadAttempt (link_href l)) w"
    have e1: "events w1 = events w @ [DownloadAttempt (link_href l)]"
      by (simp add: w1_def)
    have step: "grows (\<lambda>evs. count_events is_attempt evs \<le> max_retries - retry_count) w w2"
      if "grows (\<lambda>evs. count_events is_attempt evs \<le> max_retries - (retry_count + 1)) w1' w2"
        "events w1' = events w @ DownloadAttempt (link_href l) # pre"
        "count_events is_attempt pre = 0" for w1' w2 pre
      using that(2,1)
    proof (rule grows_after)
      fix evs
      assume "count_events is_attempt evs \<le> max_retries - (retry_count + 1)"
      then show "count_events is_attempt ((DownloadAttempt (link_href l) # pre) @ evs)
          \<le> max_retries - retry_count"
        using True that(3) by simp
    qed
    show ?thesis
    proof (cases "attempts retry_count")
      case NoPdfLink
      have "grows (\<lambda>evs. count_events is_attempt evs \<le> max_retries - retry_count) w
         (snd (snd (retry_loop max_retries attempts l (retry_count + 1) downloaded_pdfs
            documents_processed w1)))"
        using "1.IH"(1) [OF True w1_def NoPdfLink] e1 by (rule step) simp
      then show ?thesis
        using True NoPdfLink by (subst retry_loop.simps) (simp add: w1_def)
    next
      case DownloadFailed
      have "grows (\<lambda>evs. count_events is_attempt evs \<le> max_retries - retry_count) w
         (snd (snd (retry_loop max_retries attempts l (retry_count + 1) downloaded_pdfs
            documents_processed w1)))"
        using "1.IH"(2) [OF True w1_def DownloadFailed] e1 by (rule step) simp
      then show ?thesis
        using True DownloadFailed by (subst retry_loop.simps) (simp add: w1_def)
    next
      case Raised
      have "grows (\<lambda>evs. count_events is_attempt evs \<le> max_retries - retry_count) w
         (snd (snd (retry_loop max_retries attempts l (retry_count + 1) downloaded_pdfs
            documents_processed w1)))"
        using "1.IH"(4) [OF True w1_def Raised] e1 by (rule step) simp
      then show ?thesis
        using True Raised by (subst retry_loop.simps) (simp add: w1_def)
    next
      case (Downloaded pdf_path)
      show ?thesis
        using True Downloaded
        by (subst retry_loop.simps)
          (auto simp: Let_def intro!: growsI [where evs = "[DownloadAttempt (link_href l),
            PdfStored pdf_path, TrackingWritten (downloaded_pdfs @
              [new_entry pdf_path (link_href l) (link_title l)])]"])
    next
      case (DownloadedThenRaised pdf_path)
      define pdfs where
        "pdfs = downloaded_pdfs @ [new_entry pdf_path (link_href l) (link_title l)]"
      define w2 where "w2 = write_tracking pdfs (emit (PdfStored pdf_path) w1)"
      have e2: "events w2 = events w @ DownloadAttempt (link_href l)
          # [PdfStored pdf_path, TrackingWritten pdfs]"
        by (simp add: w2_def e1)
      have "grows (\<lambda>evs. count_events is_attempt evs \<le> max_retries - retry_count) w
         (snd (snd (retry_loop max_retries attempts l (retry_count + 1) pdfs
            (documents_processed + 1) w2)))"
        using "1.IH"(3) [OF True w1_def DownloadedThenRaised pdfs_def] e2
        unfolding w2_def [symmetric] by (rule step) simp
      then show ?thesis
        using True DownloadedThenRaised
        by (subst retry_loop.simps) (simp add: w1_def w2_def pdfs_def Let_def)
    qed
  qed
qed

subsection \<open>One PDF of an OCR pass\<close>

lemma tracking_file_emit [simp]: "tracking_file (emit e w) = tracking_file w"
  by (simp add: emit_def)

lemma ocr_results_emit [simp]: "ocr_results (emit e w) = ocr_results w"
  by (simp add: emit_def)

lemma tracking_file_write_tracking [simp]: "tracking_file (write_tracking pdfs w) = Some pdfs"
  by (simp add: write_tracking_def)

lemma ocr_results_write_tracking [simp]: "ocr_results (write_tracking pdfs w) = ocr_results w"
  by (simp add: write_tracking_def)

lemma tracking_file_save_results [simp]: "tracking_file (save_results w) = tracking_file w"
  by (simp add: save_results_def)

lemma ocr_results_save_results [simp]: "ocr_results (save_results w) = ocr_results w"
  by (simp add: save_results_def)

lemma ocr_one_cases:
  obtains (skip) "ocr_one outcome today ocr_attempts seen pdf_info rest w = (Inr pdf_info, w)"
      "ocr_is status_complete pdf_info
       \<or> (ocr_is status_failed pdf_info \<and> ocr_attempts \<ge> max_ocr_attempts)"
  | (error) e where "ocr_one outcome today ocr_attempts seen pdf_info rest w = (Inl e, w)"
      "\<not> ocr_is status_complete pdf_info"
  | (failed) p w' tail where "map_of pdf_info k_path = Some (JStr p)"
      "ocr_one outcome today ocr_attempts seen pdf_info rest w
       = (Inr (mark status_failed pdf_info), w')"
      "events w' = events w @ OcrStarted (length seen) (JStr p)
         # TrackingWritten (seen @ mark status_failed pdf_info # rest) # tail"
      "tail = [] \<or> tail = [ResultsSaved]"
      "tracking_file w' = Some (seen @ mark status_failed pdf_info # rest)"
      "ocr_results w' = ocr_results w"
      "\<not> ocr_is status_complete pdf_info"
      "\<not> (ocr_is status_failed pdf_info \<and> ocr_attempts \<ge> max_ocr_attempts)"
  | (complete) p w' d where "map_of pdf_info k_path = Some (JStr p)"
      "ocr_one outcome today ocr_attempts seen pdf_info rest w
       = (Inr (mark status_complete pdf_info), w')"
      "events w' = events w @ [OcrStarted (length seen) (JStr p), ResultAppended d,
         TrackingWritten (seen @ mark status_complete pdf_info # rest), ResultsSaved]"
      "tracking_file w' = Some (seen @ mark status_complete pdf_info # rest)"
      "ocr_results w' = ocr_results w @ [d]"
      "\<not> ocr_is status_complete pdf_info"
      "\<not> (ocr_is status_failed pdf_info \<and> ocr_attempts \<ge> max_ocr_attempts)"
proof (cases "ocr_is status_complete pdf_info
       \<or> (ocr_is status_failed pdf_info \<and> ocr_attempts \<ge> max_ocr_attempts)")
  case True
  then have "ocr_one outcome today ocr_attempts seen pdf_info rest w = (Inr pdf_info, w)"
    by (auto simp: ocr_one_def)
  then show ?thesis using True skip by blast
next
  case False
  then have n: "\<not> ocr_is status_complete pdf_info"
    "\<not> (ocr_is status_failed pdf_info \<and> ocr_attempts \<ge> max_ocr_attempts)"
    by auto
  show ?thesis
  proof (cases "map_of pdf_info k_path")
    case None
    then have "ocr_one outcome today ocr_attempts seen pdf_info rest w = (Inl KeyError, w)"
      using n by (auto simp: ocr_one_def)
    then show ?thesis using n error by blast
  next
    case (Some pj)
    show ?thesis
    proof (cases "\<exists>p. pj = JStr p")
      case False
      then have "ocr_one outcome today ocr_attempts seen pdf_info rest w = (Inl TypeError, w)"
        using n Some by (cases pj) (auto simp: ocr_one_def)
      then show ?thesis using n error by blast
    next
      case True
      then obtain p where p: "map_of pdf_info k_path = Some (JStr p)"
        using Some by auto
      define w1 where "w1 = emit (OcrStarted (length seen) (JStr p)) w"
      let ?f = "mark status_failed pdf_info"
      let ?c = "mark status_complete pdf_info"
      have give_up: ?thesis
        if "ocr_one outcome today ocr_attempts seen pdf_info rest w
            = (Inr ?f, write_tracking (seen @ ?f # rest) w1)"
        by (rule failed [OF p that, of "[]"]) (use n in \<open>simp_all add: w1_def\<close>)
      have give_up_saved: ?thesis
        if "ocr_one outcome today ocr_attempts seen pdf_info rest w
            = (Inr ?f, save_results (write_tracking (seen @ ?f # rest) w1))"
        by (rule failed [OF p that, of "[ResultsSaved]"]) (use n in \<open>simp_all add: w1_def\<close>)
      show ?thesis
      proof (cases outcome)
        case OcrRaised
        then show ?thesis
          using n p by (intro give_up) (auto simp: ocr_one_def w1_def Let_def)
      next
        case (OcrText body_text fetched_title)
        show ?thesis
        proof (cases "map_of pdf_info k_title")
          case None
          then show ?thesis
            using n p OcrText by (intro give_up) (auto simp: ocr_one_def w1_def Let_def)
        next
          case st: (Some stored_title)
          show ?thesis
          proof (cases "map_of pdf_info k_url")
            case None
            then show ?thesis
              using n p OcrText st by (intro give_up) (auto simp: ocr_one_def w1_def Let_def)
          next
            case (Some doc_url)
            show ?thesis
            proof (cases "body_text \<noteq> [] \<and> length (strip_ws body_text) > 50")
              case False
              then show ?thesis
                using n p OcrText st Some
                by (intro give_up_saved) (auto simp: ocr_one_def w1_def Let_def)
            next
              case True
              define d where "d = document today
                 (case fetched_title of None \<Rightarrow> stored_title
                  | Some t \<Rightarrow> if t = [] then stored_title else JStr t)
                 body_text doc_url (JStr p)"
              have "ocr_one outcome today ocr_attempts seen pdf_info rest w
                 = (Inr ?c, save_results (write_tracking (seen @ ?c # rest)
                     (emit (ResultAppended d) (w1\<lparr>ocr_results := ocr_results w1 @ [d]\<rparr>))))"
                using n p OcrText st Some True
                by (auto simp: ocr_one_def w1_def Let_def d_def)
              then show ?thesis
                by (rule complete [OF p, of _ d]) (use n in \<open>simp_all add: w1_def emit_def\<close>)
            qed
          qed
        qed
      qed
    qed
  qed
qed

lemma ocr_is_mark [simp]: "ocr_is status (mark status' pdf) \<longleftrightarrow> status = status'"
  by (auto simp: ocr_is_def mark_def update_conv')

lemma all_done_append [simp]: "all_done (a @ b) \<longleftrightarrow> all_done a \<and> all_done b"
  by (simp add: all_done_def)

lemma all_done_Cons [simp]:
  "all_done (pdf # pdfs) \<longleftrightarrow>
     (ocr_is status_complete pdf \<or> ocr_is status_failed pdf) \<and> all_done pdfs"
  by (simp add: all_done_def)

lemma all_done_Nil [simp]: "all_done []"
  by (simp add: all_done_def)

lemma ocr_items_skip:
  assumes "ocr_attempts \<ge> max_ocr_attempts" "all_done todo"
  shows "ocr_items oc today ocr_attempts seen todo w = (Inr (), seen @ todo, w)"
  using assms(2)
proof (induction todo arbitrary: seen)
  case Nil
  then show ?case by simp
next
  case (Cons pdf_info rest)
  then have "ocr_is status_complete pdf_info
       \<or> (ocr_is status_failed pdf_info \<and> ocr_attempts \<ge> max_ocr_attempts)"
    using assms(1) by auto
  then have "ocr_one (oc (length seen)) today ocr_attempts seen pdf_info rest w = (Inr pdf_info, w)"
    by (auto simp: ocr_one_def)
  then show ?case using Cons by simp
qed

lemma ocr_items_done:
  assumes "all_done seen" "ocr_items oc today ocr_attempts seen todo w = (Inr u, pdfs, w')"
  shows "all_done pdfs"
  using assms
proof (induction todo arbitrary: seen w)
  case Nil
  then show ?case by simp
next
  case (Cons pdf_info rest)
  show ?case
  proof (cases rule: ocr_one_cases [of "oc (length seen)" today ocr_attempts seen pdf_info rest w])
    case skip
    then have "all_done (seen @ [pdf_info])" using Cons.prems(1) by auto
    moreover have "ocr_items oc today ocr_attempts (seen @ [pdf_info]) rest w = (Inr u, pdfs, w')"
      using Cons.prems(2) skip(1) by simp
    ultimately show ?thesis by (rule Cons.IH)
  next
    case (error e)
    then show ?thesis using Cons.prems(2) by simp
  next
    case (failed p w1 tail)
    have "all_done (seen @ [mark status_failed pdf_info])" using Cons.prems(1) by simp
    moreover have "ocr_items oc today ocr_attempts (seen @ [mark status_failed pdf_info]) rest w1
        = (Inr u, pdfs, w')"
      using Cons.prems(2) failed(2) by simp
    ultimately show ?thesis by (rule Cons.IH)
  next
    case (complete p w1 d)
    have "all_done (seen @ [mark status_complete pdf_info])" using Cons.prems(1) by simp
    moreover have "ocr_items oc today ocr_attempts (seen @ [mark status_complete pdf_info]) rest w1
        = (Inr u, pdfs, w')"
      using Cons.prems(2) complete(2) by simp
    ultimately show ?thesis by (rule Cons.IH)
  qed
qed

lemma ocr_items_counts:
  "grows (\<lambda>evs. count_events is_pass evs = 0 \<and>
      (\<forall>i. count_events (is_extraction_of i) evs
           \<le> (if length seen \<le> i \<and> i < length seen + length todo then 1 else 0)))
     w (snd (snd (ocr_items oc today ocr_attempts seen todo w)))"
proof (induction todo arbitrary: seen w)
  case Nil
  show ?case by (rule growsI [where evs = "[]"]) simp_all
next
  case (Cons pdf_info rest)
  let ?P = "\<lambda>evs. count_events is_pass evs = 0 \<and>
      (\<forall>i. count_events (is_extraction_of i) evs
           \<le> (if length seen \<le> i \<and> i < length seen + length (pdf_info # rest) then 1 else 0))"
  have step: "grows ?P w (snd (snd (ocr_items oc today ocr_attempts (seen @ [pdf']) rest w1)))"
    if "events w1 = events w @ pre" "count_events is_pass pre = 0"
      "\<And>i. count_events (is_extraction_of i) pre \<le> (if i = length seen then 1 else 0)"
    for pdf' w1 pre
    using that(1) Cons [of "seen @ [pdf']" w1]
  proof (rule grows_after)
    fix evs
    assume a: "count_events is_pass evs = 0 \<and>
      (\<forall>i. count_events (is_extraction_of i) evs
           \<le> (if length (seen @ [pdf']) \<le> i \<and> i < length (seen @ [pdf']) + length rest
               then 1 else 0))"
    show "?P (pre @ evs)"
    proof (intro conjI allI)
      show "count_events is_pass (pre @ evs) = 0" using a that(2) by simp
      fix i
      have "count_events (is_extraction_of i) evs
           \<le> (if length seen + 1 \<le> i \<and> i < length seen + 1 + length rest then 1 else 0)"
        using a by simp
      then show "count_events (is_extraction_of i) (pre @ evs)
        \<le> (if length seen \<le> i \<and> i < length seen + length (pdf_info # rest) then 1 else 0)"
        using that(3) [of i] by (auto split: if_splits)
    qed
  qed
  show ?case
  proof (cases rule: ocr_one_cases [of "oc (length seen)" today ocr_attempts seen pdf_info rest w])
    case skip
    have "grows ?P w (snd (snd (ocr_items oc today ocr_attempts (seen @ [pdf_info]) rest w)))"
      by (rule step [where pre = "[]"]) simp_all
    then show ?thesis using skip(1) by simp
  next
    case (error e)
    then show ?thesis by (simp add: growsI [where evs = "[]"])
  next
    case (failed p w1 tail)
    have "grows ?P w (snd (snd (ocr_items oc today ocr_attempts
        (seen @ [mark status_failed pdf_info]) rest w1)))"
      using failed(3)
    proof (rule step)
      show "count_events is_pass (OcrStarted (length seen) (JStr p)
          # TrackingWritten (seen @ mark status_failed pdf_info # rest) # tail) = 0"
        using failed(4) by auto
      show "count_events (is_extraction_of i) (OcrStarted (length seen) (JStr p)
          # TrackingWritten (seen @ mark status_failed pdf_info # rest) # tail)
          \<le> (if i = length seen then 1 else 0)" for i
        using failed(4) by auto
    qed
    then show ?thesis using failed(2) by simp
  next
    case (complete p w1 d)
    have "grows ?P w (snd (snd (ocr_items oc today ocr_attempts
        (seen @ [mark status_complete pdf_info]) rest w1)))"
      using complete(3) by (rule step) simp_all
    then show ?thesis using complete(2) by simp
  qed
qed

subsection \<open>One round of the OCR loop\<close>

lemma ask_Nil [simp]: "ask [] w = (Inl EOFError, [], emit Asked w)"
  by (simp add: ask_def)

lemma ask_Cons [simp]: "ask (x # rest) w = (Inr (answered_yes x), rest, emit Asked w)"
  by (simp add: ask_def)

lemma yes_simps [simp]:
  "yes [] = 0" "yes (x # xs) = (if answered_yes x then 1 else 0) + yes xs"
  "yes (a @ b) = yes a + yes b"
  by (simp_all add: yes_def)

lemma failed_exists:
  assumes "all_done pdfs" "count_ocr status_complete pdfs \<noteq> length pdfs"
  shows "0 < count_ocr status_failed pdfs"
proof -
  have "\<exists>pdf\<in>set pdfs. \<not> ocr_is status_complete pdf"
    using assms(2) unfolding count_ocr_def
    by (metis filter_True)
  then obtain pdf where "pdf \<in> set pdfs" "ocr_is status_failed pdf"
    using assms(1) by (auto simp: all_done_def list_all_iff)
  then have "filter (ocr_is status_failed) pdfs \<noteq> []"
    by (auto simp: filter_empty_conv)
  then show ?thesis by (simp add: count_ocr_def)
qed

lemma max_ocr_attempts_pos: "0 < max_ocr_attempts"
  by (simp add: max_ocr_attempts_def)

lemma ocr_round_late:
  assumes late: "max_ocr_attempts \<le> ocr_attempts"
    and fin: "all_done pdfs"
    and inc: "count_ocr status_complete pdfs \<noteq> length pdfs"
    and round: "ocr_round oc today ocr_attempts answers pdfs w = (r, answers', pdfs', w')"
  shows "\<exists>used. answers = used @ answers' \<and> pdfs' = pdfs \<and>
      grows (round_ok ocr_attempts r used) w w'"
proof -
  have f: "0 < count_ocr status_failed pdfs" using fin inc by (rule failed_exists)
  have lt: "count_ocr status_complete pdfs < length pdfs"
    using inc count_ocr_le [of status_complete pdfs] by simp
  have skip: "ocr_items (oc ocr_attempts) today ocr_attempts [] pdfs w1 = (Inr (), pdfs, w1)" for w1
    using ocr_items_skip [OF late fin, of "oc ocr_attempts" today "[]" w1] by simp
  have nx: "\<not> ocr_attempts + 1 < max_ocr_attempts" using late by simp
  show ?thesis
  proof (cases answers)
    case Nil
    then have "r = Inl EOFError" "answers' = []" "pdfs' = pdfs" "w' = emit Asked w"
      using round late f by (simp_all add: ocr_round_def)
    then show ?thesis
      using Nil by (intro exI [of _ "[]"]) (auto intro!: growsI [where evs = "[Asked]"]
          simp: round_ok_def)
  next
    case (Cons x rest)
    show ?thesis
    proof (cases "answered_yes x")
      case False
      then have "r = Inr False" "answers' = rest" "pdfs' = pdfs" "w' = emit Asked w"
        using round late f Cons by (simp_all add: ocr_round_def)
      then show ?thesis
        using Cons by (intro exI [of _ "[x]"]) (auto intro!: growsI [where evs = "[Asked]"]
            simp: round_ok_def)
    next
      case True
      show ?thesis
      proof (cases rest)
        case Nil
        then have "r = Inl EOFError" "answers' = []" "pdfs' = pdfs"
          "w' = emit Asked (emit OcrPass (emit Asked w))"
          using round late f Cons True skip lt nx by (simp_all add: ocr_round_def)
        then show ?thesis
          using Cons Nil True
          by (intro exI [of _ "[x]"])
            (auto intro!: growsI [where evs = "[Asked, OcrPass, Asked]"] simp: round_ok_def)
      next
        case c2: (Cons y rest')
        then have "r = Inr (answered_yes y)" "answers' = rest'" "pdfs' = pdfs"
          "w' = emit Asked (emit OcrPass (emit Asked w))"
          using round late f Cons True skip lt nx by (simp_all add: ocr_round_def)
        then show ?thesis
          using Cons c2 True late
          by (intro exI [of _ "[x, y]"])
            (auto intro!: growsI [where evs = "[Asked, OcrPass, Asked]"] simp: round_ok_def)
      qed
    qed
  qed
qed

lemma length_ocr_items_nil:
  "ocr_items oc today n [] pdfs w = (res, pdfs', w') \<Longrightarrow> length pdfs' = length pdfs"
  using length_ocr_items [of oc today n "[]" pdfs w] by simp

lemma round_ok_pass:
  assumes "ocr_attempts < max_ocr_attempts"
    "count_events is_pass evs = 1"
    "\<And>i. count_events (is_extraction_of i) evs \<le> 1"
  shows "round_ok ocr_attempts r used evs"
  unfolding round_ok_def
proof (intro conjI allI)
  show "count_events is_pass evs
        + (if r = Inr True then max_ocr_attempts - (ocr_attempts + 1) else 0)
        \<le> (max_ocr_attempts - ocr_attempts) + yes used"
    using assms(1,2) by (cases "r = Inr True") simp_all
next
  fix i
  show "count_events (is_extraction_of i) evs \<le> (if ocr_attempts < max_ocr_attempts then 1 else 0)"
    using assms(1,3) by simp
qed

lemma ocr_items_pass:
  assumes "ocr_items oc today n [] pdfs (emit OcrPass w) = (res, pdfs2, w2)"
  obtains evs where "events w2 = events w @ (OcrPass # evs)"
    "count_events is_pass (OcrPass # evs) = 1"
    "\<And>i. count_events (is_extraction_of i) (OcrPass # evs) \<le> 1"
    "count_events is_pass (OcrPass # evs @ [Asked]) = 1"
    "\<And>i. count_events (is_extraction_of i) (OcrPass # evs @ [Asked]) \<le> 1"
proof -
  have "grows (\<lambda>evs. count_events is_pass evs = 0 \<and>
      (\<forall>i. count_events (is_extraction_of i) evs
           \<le> (if length ([]::entry list) \<le> i \<and> i < length ([]::entry list) + length pdfs
               then 1 else 0)))
     (emit OcrPass w) (snd (snd (ocr_items oc today n [] pdfs (emit OcrPass w))))"
    by (rule ocr_items_counts)
  then obtain evs where e: "events w2 = events (emit OcrPass w) @ evs"
    and p: "count_events is_pass evs = 0"
    and x: "\<forall>i. count_events (is_extraction_of i) evs
           \<le> (if length ([]::entry list) \<le> i \<and> i < length ([]::entry list) + length pdfs
               then 1 else 0)"
    unfolding assms by (rule growsE) simp
  have x1: "count_events (is_extraction_of i) evs \<le> 1" for i
  proof -
    have "count_events (is_extraction_of i) evs
           \<le> (if length ([]::entry list) \<le> i \<and> i < length ([]::entry list) + length pdfs
               then 1 else 0)"
      using x by (rule spec)
    also have "\<dots> \<le> 1" by simp
    finally show ?thesis .
  qed
  show thesis
  proof (rule that [of evs])
    show "events w2 = events w @ (OcrPass # evs)" using e by simp
    show "count_events is_pass (OcrPass # evs) = 1" using p by simp
    show "count_events (is_extraction_of i) (OcrPass # evs) \<le> 1" for i using x1 [of i] by simp
    show "count_events is_pass (OcrPass # evs @ [Asked]) = 1" using p by simp
    show "count_events (is_extraction_of i) (OcrPass # evs @ [Asked]) \<le> 1" for i
      using x1 [of i] by simp
  qed
qed

lemma ocr_round_early:
  assumes early: "ocr_attempts < max_ocr_attempts"
    and round: "ocr_round oc today ocr_attempts answers pdfs w = (r, answers', pdfs', w')"
  shows "\<exists>used. answers = used @ answers' \<and> length pdfs' = length pdfs \<and>
      (r = Inr True \<longrightarrow> all_done pdfs') \<and>
      grows (round_ok ocr_attempts r used) w w'"
proof -
  obtain res pdfs2 w2 where
    items: "ocr_items (oc ocr_attempts) today ocr_attempts [] pdfs (emit OcrPass w) = (res, pdfs2, w2)"
    by (metis prod_cases3)
  have len: "length pdfs2 = length pdfs" using items by (rule length_ocr_items_nil)
  from items obtain evs where evs: "events w2 = events w @ (OcrPass # evs)"
    and ok1: "count_events is_pass (OcrPass # evs) = 1"
      "\<And>i. count_events (is_extraction_of i) (OcrPass # evs) \<le> 1"
    and ok2: "count_events is_pass (OcrPass # evs @ [Asked]) = 1"
      "\<And>i. count_events (is_extraction_of i) (OcrPass # evs @ [Asked]) \<le> 1"
    by (rule ocr_items_pass) blast
  have g1: "grows (round_ok ocr_attempts r' used) w w2" for r' used
    using evs round_ok_pass [OF early ok1] by (rule growsI)
  have "events (emit Asked w2) = events w @ (OcrPass # evs @ [Asked])"
    using evs by simp
  then have g2: "grows (round_ok ocr_attempts r' used) w (emit Asked w2)" for r' used
    using round_ok_pass [OF early ok2] by (rule growsI)
  have ne: "\<not> max_ocr_attempts \<le> ocr_attempts" using early by simp
  have first: "ocr_round oc today ocr_attempts answers pdfs w =
      (case res of
         Inl e \<Rightarrow> (Inl e, answers, pdfs2, w2)
       | Inr u \<Rightarrow>
           if count_ocr status_complete pdfs2 < length pdfs then
             (if ocr_attempts + 1 < max_ocr_attempts then (Inr True, answers, pdfs2, w2)
              else
                (case ask answers w2 of
                   (Inl e, answers2, w3) \<Rightarrow> (Inl e, answers2, pdfs2, w3)
                 | (Inr b, answers2, w3) \<Rightarrow> (Inr b, answers2, pdfs2, w3)))
           else (Inr True, answers, pdfs2, w2))"
    unfolding ocr_round_def using ne by (cases res) (simp_all add: items)
  show ?thesis
  proof (cases res)
    case (Inl e)
    then have eq: "r = Inl e" "answers' = answers" "pdfs' = pdfs2" "w' = w2"
      using round first by simp_all
    show ?thesis
      unfolding eq using len g1 by (intro exI [of _ "[]"]) simp
  next
    case (Inr u)
    have fin: "all_done pdfs2"
      using ocr_items_done [of "[]", OF _ items [unfolded Inr]] by simp
    show ?thesis
    proof (cases "count_ocr status_complete pdfs2 < length pdfs \<and> \<not> ocr_attempts + 1 < max_ocr_attempts")
      case False
      then have eq: "r = Inr True" "answers' = answers" "pdfs' = pdfs2" "w' = w2"
        using round first Inr by (auto split: if_splits)
      show ?thesis
        unfolding eq using len g1 fin by (intro exI [of _ "[]"]) simp
    next
      case True
      show ?thesis
      proof (cases answers)
        case Nil
        then have eq: "r = Inl EOFError" "answers' = []" "pdfs' = pdfs2" "w' = emit Asked w2"
          using round first Inr True by simp_all
        show ?thesis
          unfolding eq using len g2 Nil by (intro exI [of _ "[]"]) simp
      next
        case (Cons x rest)
        then have eq: "r = Inr (answered_yes x)" "answers' = rest" "pdfs' = pdfs2"
          "w' = emit Asked w2"
          using round first Inr True by simp_all
        show ?thesis
          unfolding eq using len g2 fin Cons by (intro exI [of _ "[x]"]) simp
      qed
    qed
  qed
qed

lemma ocr_round_ok:
  assumes inv: "ocr_attempts = 0 \<or> all_done pdfs"
    and inc: "count_ocr status_complete pdfs \<noteq> length pdfs"
    and round: "ocr_round oc today ocr_attempts answers pdfs w = (r, answers', pdfs', w')"
  shows "\<exists>used. answers = used @ answers' \<and> length pdfs' = length pdfs \<and>
      (r = Inr True \<longrightarrow> all_done pdfs') \<and>
      grows (round_ok ocr_attempts r used) w w'"
proof (cases "ocr_attempts < max_ocr_attempts")
  case True
  then show ?thesis using round by (rule ocr_round_early)
next
  case False
  then have late: "max_ocr_attempts \<le> ocr_attempts" by simp
  then have fin: "all_done pdfs" using inv max_ocr_attempts_pos by auto
  from ocr_round_late [OF late fin inc round] fin show ?thesis by auto
qed

subsection \<open>The OCR loop\<close>

lemma loop_ok_step:
  assumes "round_ok ocr_attempts (Inr True) used1 a" "loop_ok (ocr_attempts + 1) used2 b"
  shows "loop_ok ocr_attempts (used1 @ used2) (a @ b)"
  unfolding loop_ok_def
proof (intro conjI allI)
  have "count_events is_pass a + (max_ocr_attempts - (ocr_attempts + 1))
        \<le> (max_ocr_attempts - ocr_attempts) + yes used1"
    using assms(1) by (simp add: round_ok_def)
  moreover have "count_events is_pass b \<le> (max_ocr_attempts - (ocr_attempts + 1)) + yes used2"
    using assms(2) by (simp add: loop_ok_def)
  ultimately show "count_events is_pass (a @ b)
      \<le> (max_ocr_attempts - ocr_attempts) + yes (used1 @ used2)"
    by simp
next
  fix i
  have "count_events (is_extraction_of i) a \<le> (if ocr_attempts < max_ocr_attempts then 1 else 0)"
    using assms(1) by (simp add: round_ok_def)
  moreover have "count_events (is_extraction_of i) b \<le> max_ocr_attempts - (ocr_attempts + 1)"
    using assms(2) by (simp add: loop_ok_def)
  ultimately show "count_events (is_extraction_of i) (a @ b) \<le> max_ocr_attempts - ocr_attempts"
    by (cases "ocr_attempts < max_ocr_attempts") simp_all
qed

lemma loop_ok_stop:
  assumes "r \<noteq> Inr True" "round_ok ocr_attempts r used a"
  shows "loop_ok ocr_attempts used a"
  unfolding loop_ok_def
proof (intro conjI allI)
  show "count_events is_pass a \<le> (max_ocr_attempts - ocr_attempts) + yes used"
    using assms by (simp add: round_ok_def)
next
  fix i
  have "count_events (is_extraction_of i) a \<le> (if ocr_attempts < max_ocr_attempts then 1 else 0)"
    using assms(2) by (simp add: round_ok_def)
  then show "count_events (is_extraction_of i) a \<le> max_ocr_attempts - ocr_attempts"
    by (cases "ocr_attempts < max_ocr_attempts") simp_all
qed

lemma ocr_loop_done:
  "count_ocr status_complete pdfs = length pdfs
   \<Longrightarrow> ocr_loop oc today n answers pdfs w = (Inr (), answers, pdfs, w)"
  by (subst ocr_loop.simps) simp

lemma ocr_loop_round:
  assumes "count_ocr status_complete pdfs \<noteq> length pdfs"
    "ocr_round oc today n answers pdfs w = (r1, a1, p1, w1)"
  shows "ocr_loop oc today n answers pdfs w =
     (case r1 of Inl e \<Rightarrow> (Inl e, a1, p1, w1)
      | Inr False \<Rightarrow> (Inr (), a1, p1, w1)
      | Inr True \<Rightarrow> ocr_loop oc today (n + 1) a1 p1 w1)"
  by (subst ocr_loop.simps) (simp add: assms split: sum.splits bool.splits)

lemma ocr_loop_bound:
  assumes "ocr_attempts = 0 \<or> all_done pdfs"
    "ocr_loop oc today ocr_attempts answers pdfs w = (r, answers', pdfs', w')"
  shows "\<exists>used. answers = used @ answers' \<and> grows (loop_ok ocr_attempts used) w w'"
  using assms
proof (induction oc today ocr_attempts answers pdfs w rule: ocr_loop.induct)
  case (1 oc today ocr_attempts answers downloaded_pdfs w)
  show ?case
  proof (cases "count_ocr status_complete downloaded_pdfs = length downloaded_pdfs")
    case True
    then have eq: "answers' = answers" "w' = w"
      using "1.prems"(2) by (simp_all add: ocr_loop_done)
    have "grows (loop_ok ocr_attempts []) w w"
      by (rule growsI [where evs = "[]"]) (simp_all add: loop_ok_def)
    then show ?thesis unfolding eq by (intro exI [of _ "[]"]) simp
  next
    case False
    obtain r1 a1 p1 w1 where
      round: "ocr_round oc today ocr_attempts answers downloaded_pdfs w = (r1, a1, p1, w1)"
      by (metis prod_cases4)
    from ocr_round_ok [OF "1.prems"(1) False round] obtain used1 where
      u1: "answers = used1 @ a1" and fin: "r1 = Inr True \<longrightarrow> all_done p1"
      and g1: "grows (round_ok ocr_attempts r1 used1) w w1"
      by blast
    note unf = ocr_loop_round [OF False round]
    show ?thesis
    proof (cases "r1 = Inr True")
      case True
      have loop: "ocr_loop oc today (ocr_attempts + 1) a1 p1 w1 = (r, answers', pdfs', w')"
        using "1.prems"(2) unfolding unf True by simp
      have inv: "ocr_attempts + 1 = 0 \<or> all_done p1" using fin True by simp
      have "\<exists>used. a1 = used @ answers' \<and> grows (loop_ok (ocr_attempts + 1) used) w1 w'"
        by (rule "1.IH" [OF False round [symmetric] True refl refl refl inv loop])
      then obtain used2 where u2: "a1 = used2 @ answers'"
        and g2: "grows (loop_ok (ocr_attempts + 1) used2) w1 w'"
        by blast
      have "grows (loop_ok ocr_attempts (used1 @ used2)) w w'"
        using g1 [unfolded True] g2 by (rule grows_trans) (rule loop_ok_step)
      then show ?thesis using u1 u2 by (intro exI [of _ "used1 @ used2"]) simp
    next
      case False
      then have eq: "answers' = a1" "w' = w1"
        using "1.prems"(2) unfolding unf by (auto split: sum.splits bool.splits)
      have "grows (loop_ok ocr_attempts used1) w w1"
        using g1 by (rule grows_mono) (rule loop_ok_stop [OF False])
      then show ?thesis unfolding eq using u1 by (intro exI [of _ used1]) simp
    qed
  qed
qed

subsection \<open>Claim C1: retry loops are bounded by a counter\<close>

lemma grows_new_events: "grows P w w' \<Longrightarrow> P (new_events w w')"
  by (simp add: grows_def)

lemma process_single_document_download_attempts:
  "grows (\<lambda>evs. count_events is_attempt evs \<le> 3) w
     (snd (snd (process_single_document_download attempts l pdfs dp w)))"
proof -
  have same: "grows (\<lambda>evs. count_events is_attempt evs \<le> 3) w w"
    by (rule growsI [where evs = "[]"]) simp_all
  have loop: "grows (\<lambda>evs. count_events is_attempt evs \<le> 3) w
     (snd (snd (retry_loop 3 attempts l 0 pdfs dp w)))"
    using retry_loop_attempts [of 3 0 w attempts l pdfs dp] by simp
  show ?thesis
  proof (cases "any_url_is (link_href l) pdfs")
    case (Inl e)
    then show ?thesis using same by (simp add: process_single_document_download_def)
  next
    case (Inr b)
    then show ?thesis using same loop
      by (cases b) (simp_all add: process_single_document_download_def split_beta)
  qed
qed

lemma process_ocr_phase_bound:
  assumes "process_ocr_phase f oc today answers pdfs w = (r, answers', pdfs', w')"
  shows "\<exists>used. answers = used @ answers' \<and> loop_ok 0 used (new_events w w')"
proof -
  let ?w = "load_results f w"
  have ev: "events ?w = events w" by (cases f) (simp_all add: load_results_def)
  have "\<exists>used. answers = used @ answers' \<and> grows (loop_ok 0 used) ?w w'"
    using assms unfolding process_ocr_phase_def by (intro ocr_loop_bound) simp_all
  then obtain used where u: "answers = used @ answers'" and g: "grows (loop_ok 0 used) ?w w'"
    by blast
  have "loop_ok 0 used (new_events ?w w')" using g by (rule grows_new_events)
  then have "loop_ok 0 used (new_events w w')" by (simp add: new_events_def ev)
  then show ?thesis using u by blast
qed

text \<open>
  Claim C1 says that the OCR phase ends after at most its fixed maximum number of
  passes over the list of PDFs. It does not: with one PDF from which no text ever
  comes, and an operator who answers \<open>y\<close>, \<open>y\<close>, \<open>y\<close> and then \<open>n\<close> to the two
  prompts, the \<open>for\<close> loop over the list is entered four times, one more than
  \<open>max_ocr_attempts\<close>. The docstring of the function says so: it retries until all
  are complete or the user intervenes.
\<close>

theorem ocr_phase_fourth_pass_counterexample:
  "(case process_ocr_phase NoResultsFile no_text [] yes_yes_yes_no [] world_one of
      (r, answers', pdfs', w') \<Rightarrow>
        r = Inr () \<and> answers' = [] \<and>
        count_events is_pass (new_events world_one w') = 4 \<and>
        \<not> count_events is_pass (new_events world_one w') \<le> max_ocr_attempts)"
  by code_simp

text \<open>
  Claim C1, as the code has it. One call of \<open>process_single_document_download\<close>
  makes at most three attempts to download its document. In \<open>process_ocr_phase\<close>
  the counter bounds the work and not the loop: the text of each PDF of the list is
  extracted at most \<open>max_ocr_attempts\<close> times, and the number of passes over the list
  is at most \<open>max_ocr_attempts\<close> plus the number of times the operator answered
  \<open>y\<close>, where \<open>used\<close> are the answers the phase has read.
\<close>

theorem fbi_retries_bounded:
  "count_events is_attempt
     (new_events w (snd (snd (process_single_document_download attempts l pdfs dp w)))) \<le> 3
   \<and> (case process_ocr_phase f oc today answers pdfs w of
        (r, answers', pdfs', w') \<Rightarrow>
          \<exists>used. answers = used @ answers' \<and>
            count_events is_pass (new_events w w') \<le> max_ocr_attempts + yes used \<and>
            (\<forall>i. count_events (is_extraction_of i) (new_events w w') \<le> max_ocr_attempts))"
proof (rule conjI)
  show "count_events is_attempt
     (new_events w (snd (snd (process_single_document_download attempts l pdfs dp w)))) \<le> 3"
    using process_single_document_download_attempts by (rule grows_new_events)
next
  obtain r answers' pdfs' w' where
    eq: "process_ocr_phase f oc today answers pdfs w = (r, answers', pdfs', w')"
    by (metis prod_cases4)
  from process_ocr_phase_bound [OF eq] obtain used where
    "answers = used @ answers'" "loop_ok 0 used (new_events w w')"
    by blast
  then have "\<exists>used. answers = used @ answers' \<and>
            count_events is_pass (new_events w w') \<le> max_ocr_attempts + yes used \<and>
            (\<forall>i. count_events (is_extraction_of i) (new_events w w') \<le> max_ocr_attempts)"
    unfolding loop_ok_def by (intro exI [of _ used]) simp
  then show "case process_ocr_phase f oc today answers pdfs w of
        (r, answers', pdfs', w') \<Rightarrow>
          \<exists>used. answers = used @ answers' \<and>
            count_events is_pass (new_events w w') \<le> max_ocr_attempts + yes used \<and>
            (\<forall>i. count_events (is_extraction_of i) (new_events w w') \<le> max_ocr_attempts)"
    unfolding eq by simp
qed

text \<open>
  Both bounds are reached: three attempts for a document that never downloads, and
  three extractions of a PDF that never gives text, with three answers \<open>y\<close>.
\<close>

lemma retries_example:
  "count_events is_attempt
     (new_events world_one
        (snd (snd (process_single_document_download never_downloads doc_a [] 0 world_one)))) = 3
   \<and> (case process_ocr_phase NoResultsFile no_text [] yes_yes_yes_no [] world_one of
        (r, answers', pdfs', w') \<Rightarrow>
          count_events (is_extraction_of 0) (new_events world_one w') = 3 \<and>
          yes yes_yes_yes_no = 3)"
  by code_simp

text \<open>The theorem at this document and this PDF.\<close>

theorem fbi_retries_bounded_witness:
  "count_events is_attempt
     (new_events world_one
        (snd (snd (process_single_document_download never_downloads doc_a [] 0 world_one)))) \<le> 3
   \<and> (case process_ocr_phase NoResultsFile no_text [] yes_yes_yes_no [] world_one of
        (r, answers', pdfs', w') \<Rightarrow>
          \<exists>used. yes_yes_yes_no = used @ answers' \<and>
            count_events is_pass (new_events world_one w') \<le> max_ocr_attempts + yes used \<and>
            (\<forall>i. count_events (is_extraction_of i) (new_events world_one w')
                  \<le> max_ocr_attempts))"
  using fbi_retries_bounded [where w = world_one and attempts = never_downloads and l = doc_a
      and pdfs = "[]" and dp = 0 and f = NoResultsFile and oc = no_text and today = "[]"
      and answers = yes_yes_yes_no]
  by simp

subsection \<open>Events of the download phase\<close>

lemma download_trace_append:
  "download_trace a (x @ y) = (case download_trace a x of None \<Rightarrow> None | Some b \<Rightarrow> download_trace b y)"
  by (induction a x rule: download_trace.induct) simp_all

lemma ocr_trace_append:
  "ocr_trace a (x @ y) = (case ocr_trace a x of None \<Rightarrow> None | Some b \<Rightarrow> ocr_trace b y)"
  by (induction a x rule: ocr_trace.induct) simp_all

lemma in_step_refl: "in_step pdfs w pdfs w"
  by (simp add: in_step_def)

lemma in_step_trans: "in_step a w b w1 \<Longrightarrow> in_step b w1 c w2 \<Longrightarrow> in_step a w c w2"
  unfolding in_step_def by auto

lemma downloading_refl: "downloading pdfs w pdfs w"
  unfolding downloading_def
  by (intro conjI in_step_refl growsI [where evs = "[]"] refl) simp_all

lemma downloading_trans:
  assumes "downloading a w b w1" "downloading b w1 c w2"
  shows "downloading a w c w2"
  unfolding downloading_def
proof
  show "grows (\<lambda>evs. download_trace a evs = Some c) w w2"
    using assms [unfolded downloading_def, THEN conjunct1]
    by (rule grows_trans) (simp add: download_trace_append)
  show "in_step a w c w2 \<and> ocr_results w2 = ocr_results w"
    using assms [unfolded downloading_def, THEN conjunct2] by (auto intro: in_step_trans)
qed

lemma recognising_refl: "recognising pdfs w pdfs w"
  unfolding recognising_def
  by (intro conjI in_step_refl growsI [where evs = "[]"]) simp_all

lemma recognising_trans:
  assumes "recognising a w b w1" "recognising b w1 c w2"
  shows "recognising a w c w2"
  unfolding recognising_def
proof
  show "grows (\<lambda>evs. ocr_trace a evs = Some c) w w2"
    using assms [unfolded recognising_def, THEN conjunct1]
    by (rule grows_trans) (simp add: ocr_trace_append)
  show "in_step a w c w2"
    using assms [unfolded recognising_def, THEN conjunct2] by (rule in_step_trans)
qed

lemma keys_distinct:
  "k_path \<noteq> k_url" "k_path \<noteq> k_title" "k_path \<noteq> k_ocr" "k_url \<noteq> k_title"
  "k_url \<noteq> k_ocr" "k_title \<noteq> k_ocr"
  by (simp_all add: k_path_def k_url_def k_title_def k_ocr_def str_of_def)

lemma new_entry_ok: "entry_ok (new_entry p u t)" "ocr_is status_pending (new_entry p u t)"
  using keys_distinct
  by (auto simp: entry_ok_def new_entry_def ocr_is_def)

lemma downloading_attempt: "downloading pdfs w pdfs (emit (DownloadAttempt u) w)"
  unfolding downloading_def
  by (intro conjI growsI [where evs = "[DownloadAttempt u]"]) (simp_all add: in_step_def)

lemma downloading_stored:
  "downloading pdfs w (pdfs @ [new_entry p u t])
     (write_tracking (pdfs @ [new_entry p u t]) (emit (PdfStored p) w))"
  unfolding downloading_def
  by (intro conjI growsI [where evs = "[PdfStored p, TrackingWritten (pdfs @ [new_entry p u t])]"])
    (simp_all add: in_step_def new_entry_ok)

lemma retry_loop_downloading:
  "downloading pdfs w
     (fst (snd (retry_loop max_retries attempts l retry_count pdfs dp w)))
     (snd (snd (retry_loop max_retries attempts l retry_count pdfs dp w)))"
proof (induction max_retries attempts l retry_count pdfs dp w rule: retry_loop.induct)
  case (1 max_retries attempts l retry_count downloaded_pdfs documents_processed w)
  let ?w1 = "emit (DownloadAttempt (link_href l)) w"
  note a = downloading_attempt [of downloaded_pdfs w "link_href l"]
  show ?case
  proof (cases "retry_count < max_retries")
    case False
    then show ?thesis by (subst (1 2) retry_loop.simps) (simp add: downloading_refl)
  next
    case True
    show ?thesis
    proof (cases "attempts retry_count")
      case NoPdfLink
      have "downloading downloaded_pdfs ?w1
        (fst (snd (retry_loop max_retries attempts l (retry_count + 1) downloaded_pdfs
            documents_processed ?w1)))
        (snd (snd (retry_loop max_retries attempts l (retry_count + 1) downloaded_pdfs
            documents_processed ?w1)))"
        using True refl NoPdfLink by (rule "1.IH"(1))
      with a have "downloading downloaded_pdfs w
        (fst (snd (retry_loop max_retries attempts l (retry_count + 1) downloaded_pdfs
            documents_processed ?w1)))
        (snd (snd (retry_loop max_retries attempts l (retry_count + 1) downloaded_pdfs
            documents_processed ?w1)))"
        by (rule downloading_trans)
      then show ?thesis
        by (subst (1 2) retry_loop.simps) (simp add: True NoPdfLink Let_def)
    next
      case DownloadFailed
      have "downloading downloaded_pdfs ?w1
        (fst (snd (retry_loop max_retries attempts l (retry_count + 1) downloaded_pdfs
            documents_processed ?w1)))
        (snd (snd (retry_loop max_retries attempts l (retry_count + 1) downloaded_pdfs
            documents_processed ?w1)))"
        using True refl DownloadFailed by (rule "1.IH"(2))
      with a have "downloading downloaded_pdfs w
        (fst (snd (retry_loop max_retries attempts l (retry_count + 1) downloaded_pdfs
            documents_processed ?w1)))
        (snd (snd (retry_loop max_retries attempts l (retry_count + 1) downloaded_pdfs
            documents_processed ?w1)))"
        by (rule downloading_trans)
      then show ?thesis
        by (subst (1 2) retry_loop.simps) (simp add: True DownloadFailed Let_def)
    next
      case Raised
      have "downloading downloaded_pdfs ?w1
        (fst (snd (retry_loop max_retries attempts l (retry_count + 1) downloaded_pdfs
            documents_processed ?w1)))
        (snd (snd (retry_loop max_retries attempts l (retry_count + 1) downloaded_pdfs
            documents_processed ?w1)))"
        using True refl Raised by (rule "1.IH"(4))
      with a have "downloading downloaded_pdfs w
        (fst (snd (retry_loop max_retries attempts l (retry_count + 1) downloaded_pdfs
            documents_processed ?w1)))
        (snd (snd (retry_loop max_retries attempts l (retry_count + 1) downloaded_pdfs
            documents_processed ?w1)))"
        by (rule downloading_trans)
      then show ?thesis
        by (subst (1 2) retry_loop.simps) (simp add: True Raised Let_def)
    next
      case (Downloaded pdf_path)
      let ?pdfs = "downloaded_pdfs @ [new_entry pdf_path (link_href l) (link_title l)]"
      have "downloading downloaded_pdfs w ?pdfs (write_tracking ?pdfs (emit (PdfStored pdf_path) ?w1))"
        using a downloading_stored by (rule downloading_trans)
      then show ?thesis
        by (subst (1 2) retry_loop.simps) (simp add: True Downloaded Let_def)
    next
      case (DownloadedThenRaised pdf_path)
      let ?pdfs = "downloaded_pdfs @ [new_entry pdf_path (link_href l) (link_title l)]"
      let ?w2 = "write_tracking ?pdfs (emit (PdfStored pdf_path) ?w1)"
      have s: "downloading downloaded_pdfs w ?pdfs ?w2"
        using a downloading_stored by (rule downloading_trans)
      have "downloading ?pdfs ?w2
        (fst (snd (retry_loop max_retries attempts l (retry_count + 1) ?pdfs
            (documents_processed + 1) ?w2)))
        (snd (snd (retry_loop max_retries attempts l (retry_count + 1) ?pdfs
            (documents_processed + 1) ?w2)))"
        using True refl DownloadedThenRaised refl by (rule "1.IH"(3))
      with s have "downloading downloaded_pdfs w
        (fst (snd (retry_loop max_retries attempts l (retry_count + 1) ?pdfs
            (documents_processed + 1) ?w2)))
        (snd (snd (retry_loop max_retries attempts l (retry_count + 1) ?pdfs
            (documents_processed + 1) ?w2)))"
        by (rule downloading_trans)
      then show ?thesis
        by (subst (1 2) retry_loop.simps) (simp add: True DownloadedThenRaised Let_def)
    qed
  qed
qed

lemma process_single_document_download_downloading:
  "downloading pdfs w
     (fst (snd (process_single_document_download attempts l pdfs dp w)))
     (snd (snd (process_single_document_download attempts l pdfs dp w)))"
proof (cases "any_url_is (link_href l) pdfs")
  case (Inl e)
  then show ?thesis by (simp add: process_single_document_download_def downloading_refl)
next
  case (Inr b)
  then show ?thesis
    using retry_loop_downloading [of pdfs w 3 attempts l 0 dp]
    by (cases b) (simp_all add: process_single_document_download_def downloading_refl split_beta)
qed

lemma page_loop_downloading:
  "downloading pdfs w
     (fst (snd (page_loop max_documents todo i rounds pdfs dp w)))
     (snd (snd (page_loop max_documents todo i rounds pdfs dp w)))"
proof (induction todo arbitrary: i rounds pdfs dp w)
  case 0
  show ?case by (simp add: downloading_refl)
next
  case (Suc todo)
  show ?case
  proof (cases "reached_maximum max_documents dp")
    case True
    then show ?thesis by (simp add: downloading_refl)
  next
    case False
    show ?thesis
    proof (cases rounds)
      case Nil
      then show ?thesis using False by (simp add: downloading_refl)
    next
      case (Cons round rounds')
      obtain current_links attempts where round: "round = (current_links, attempts)"
        by (cases round)
      show ?thesis
      proof (cases "i \<ge> length current_links")
        case True
        then show ?thesis using False Cons round by (simp add: downloading_refl)
      next
        case inside: False
        obtain r pdfs1 w1 where
          one: "process_single_document_download attempts (current_links ! i) pdfs dp w
                = (r, pdfs1, w1)"
          by (metis prod_cases3)
        have d1: "downloading pdfs w pdfs1 w1"
          using process_single_document_download_downloading
            [of pdfs w attempts "current_links ! i" dp]
          unfolding one by simp
        show ?thesis
        proof (cases r)
          case (Inl e)
          then show ?thesis using False Cons round inside one d1 by simp
        next
          case (Inr res)
          obtain processed ok where res: "res = (processed, ok)" by (cases res)
          have "downloading pdfs w
              (fst (snd (page_loop max_documents todo (i + 1) rounds' pdfs1 processed w1)))
              (snd (snd (page_loop max_documents todo (i + 1) rounds' pdfs1 processed w1)))"
            using d1 Suc.IH by (rule downloading_trans)
          then show ?thesis using False Cons round inside one Inr res by simp
        qed
      qed
    qed
  qed
qed

lemma process_page_downloads_downloading:
  "downloading pdfs w
     (fst (snd (process_page_downloads max_documents pv pdfs dp w)))
     (snd (snd (process_page_downloads max_documents pv pdfs dp w)))"
  unfolding process_page_downloads_def by (rule page_loop_downloading)

lemma download_loop_downloading:
  "downloading pdfs w
     (fst (snd (download_loop max_documents visits pdfs dp w)))
     (snd (snd (download_loop max_documents visits pdfs dp w)))"
proof (induction visits arbitrary: pdfs dp w)
  case Nil
  show ?case by (simp add: downloading_refl)
next
  case (Cons pv visits)
  show ?case
  proof (cases "pv_links pv = []")
    case True
    then show ?thesis by (simp add: downloading_refl)
  next
    case False
    obtain r pdfs1 w1 where
      one: "process_page_downloads max_documents pv pdfs dp w = (r, pdfs1, w1)"
      by (metis prod_cases3)
    have d1: "downloading pdfs w pdfs1 w1"
      using process_page_downloads_downloading [of pdfs w max_documents pv dp]
      unfolding one by simp
    show ?thesis
    proof (cases r)
      case (Inl e)
      then show ?thesis using False one d1 by simp
    next
      case (Inr res)
      obtain processed reached_max where res: "res = (processed, reached_max)" by (cases res)
      have "downloading pdfs w
          (fst (snd (download_loop max_documents visits pdfs1 processed w1)))
          (snd (snd (download_loop max_documents visits pdfs1 processed w1)))"
        using d1 Cons.IH by (rule downloading_trans)
      then show ?thesis using False one Inr res d1 by simp
    qed
  qed
qed

lemma missing_loop_downloading:
  "downloading pdfs w
     (fst (missing_loop found downloaded_urls pdfs w))
     (snd (missing_loop found downloaded_urls pdfs w))"
proof (induction found arbitrary: downloaded_urls pdfs w)
  case Nil
  show ?case by (simp add: downloading_refl)
next
  case (Cons la rest)
  obtain l a where la: "la = (l, a)" by (cases la)
  let ?w1 = "emit (DownloadAttempt (link_href l)) w"
  note at = downloading_attempt [of pdfs w "link_href l"]
  show ?case
  proof (cases "link_href l \<in> set downloaded_urls")
    case True
    then show ?thesis using la Cons.IH by simp
  next
    case False
    have other: "downloading pdfs w
          (fst (missing_loop rest downloaded_urls pdfs ?w1))
          (snd (missing_loop rest downloaded_urls pdfs ?w1))"
      using at Cons.IH by (rule downloading_trans)
    show ?thesis
    proof (cases a)
      case (MissingDownloaded pdf_path)
      let ?pdfs = "pdfs @ [new_entry pdf_path (link_href l) (missing_title l)]"
      let ?w2 = "write_tracking ?pdfs (emit (PdfStored pdf_path) ?w1)"
      have "downloading pdfs w ?pdfs ?w2"
        using at downloading_stored by (rule downloading_trans)
      then have "downloading pdfs w
          (fst (missing_loop rest (link_href l # downloaded_urls) ?pdfs ?w2))
          (snd (missing_loop rest (link_href l # downloaded_urls) ?pdfs ?w2))"
        using Cons.IH by (rule downloading_trans)
      then show ?thesis using la False MissingDownloaded by (simp add: Let_def)
    next
      case MissingNoPdfLink
      then show ?thesis using la False other by (simp add: Let_def)
    next
      case MissingFailed
      then show ?thesis using la False other by (simp add: Let_def)
    next
      case MissingRaised
      then show ?thesis using la False other by (simp add: Let_def)
    qed
  qed
qed

lemma verify_loop_downloading:
  "downloading pdfs w
     (fst (snd (verify_loop vv m todo attempt pdfs w)))
     (snd (snd (verify_loop vv m todo attempt pdfs w)))"
proof (induction todo arbitrary: attempt pdfs w)
  case 0
  show ?case by (simp add: downloading_refl)
next
  case (Suc todo)
  show ?case
  proof (cases "length pdfs \<ge> vv_total_available (vv attempt)")
    case True
    then show ?thesis by (simp add: downloading_refl)
  next
    case False
    show ?thesis
    proof (cases "attempt < m")
      case last: False
      then show ?thesis using False Suc.IH by simp
    next
      case True
      show ?thesis
      proof (cases "urls_of pdfs")
        case (Inl e)
        then show ?thesis
          using False True by (simp add: download_missing_documents_def downloading_refl)
      next
        case (Inr downloaded_urls)
        obtain pdfs1 w1 where
          m: "missing_loop (vv_found (vv attempt)) downloaded_urls pdfs w = (pdfs1, w1)"
          by (cases "missing_loop (vv_found (vv attempt)) downloaded_urls pdfs w")
        have "downloading pdfs w pdfs1 w1"
          using missing_loop_downloading [of pdfs w "vv_found (vv attempt)" downloaded_urls]
          unfolding m by simp
        then have "downloading pdfs w
            (fst (snd (verify_loop vv m todo (attempt + 1) pdfs1 w1)))
            (snd (snd (verify_loop vv m todo (attempt + 1) pdfs1 w1)))"
          using Suc.IH by (rule downloading_trans)
        then show ?thesis
          using False True Inr m by (simp add: download_missing_documents_def)
      qed
    qed
  qed
qed

lemma download_phase_downloading:
  "downloading (initialize_download_phase w) w
     (fst (snd (download_phase env max_documents w)))
     (snd (snd (download_phase env max_documents w)))"
proof -
  let ?init = "initialize_download_phase w"
  obtain r pdfs1 w1 where
    one: "download_loop max_documents (env_visits env) ?init (length ?init) w = (r, pdfs1, w1)"
    by (metis prod_cases3)
  have d1: "downloading ?init w pdfs1 w1"
    using download_loop_downloading [of ?init w max_documents "env_visits env" "length ?init"]
    unfolding one by simp
  show ?thesis
  proof (cases r)
    case (Inl e)
    then show ?thesis using one d1 by (simp add: download_phase_def Let_def)
  next
    case (Inr processed)
    obtain r2 pdfs2 w2 where
      two: "verify_downloads_complete (env_verify env) pdfs1 w1 = (r2, pdfs2, w2)"
      by (metis prod_cases3)
    have "downloading pdfs1 w1 pdfs2 w2"
      using verify_loop_downloading [of pdfs1 w1 "env_verify env" 3 3 1]
      unfolding two [unfolded verify_downloads_complete_def] by simp
    with d1 have "downloading ?init w pdfs2 w2" by (rule downloading_trans)
    then show ?thesis
      using one Inr two by (cases r2) (simp_all add: download_phase_def Let_def)
  qed
qed

subsection \<open>Events of the OCR phase\<close>

lemma updated_refl [simp]: "updated x x"
  by (simp add: updated_def)

lemma updated_mark [simp]: "updated x (mark status_complete x)" "updated x (mark status_failed x)"
  by (simp_all add: updated_def)

lemma list_all2_updated_refl [simp]: "list_all2 updated xs xs"
  by (simp add: list_all2_refl)

lemma list_all2_updated_one:
  "updated x y \<Longrightarrow> list_all2 updated (seen @ x # rest) (seen @ y # rest)"
  by (simp add: list_all2_appendI)

lemma recognising_asked: "recognising pdfs w pdfs (emit Asked w)"
  unfolding recognising_def
  by (intro conjI growsI [where evs = "[Asked]"]) (simp_all add: in_step_def)

lemma recognising_pass: "recognising pdfs w pdfs (emit OcrPass w)"
  unfolding recognising_def
  by (intro conjI growsI [where evs = "[OcrPass]"]) (simp_all add: in_step_def)

lemma recognising_saved: "recognising pdfs w pdfs (save_results w)"
  unfolding recognising_def
  by (intro conjI growsI [where evs = "[ResultsSaved]"]) (simp_all add: in_step_def)

lemma recognisingI:
  assumes "events w' = events w @ evs" "ocr_trace pdfs evs = Some pdfs'"
    "tracking_file w' = Some pdfs'"
  shows "recognising pdfs w pdfs' w'"
  unfolding recognising_def in_step_def
  using assms by (intro conjI growsI [where evs = evs] disjI1)

lemma ocr_one_recognising:
  "(case ocr_one outcome today ocr_attempts seen pdf_info rest w of
      (Inl e, w') \<Rightarrow> w' = w
    | (Inr pdf', w') \<Rightarrow>
        recognising (seen @ pdf_info # rest) w (seen @ pdf' # rest) w')"
proof (cases rule: ocr_one_cases [of outcome today ocr_attempts seen pdf_info rest w])
  case skip
  then show ?thesis by (simp add: recognising_refl)
next
  case (error e)
  then show ?thesis by simp
next
  case (failed p w' tail)
  have "ocr_trace (seen @ pdf_info # rest)
     (OcrStarted (length seen) (JStr p)
         # TrackingWritten (seen @ mark status_failed pdf_info # rest) # tail)
     = Some (seen @ mark status_failed pdf_info # rest)"
    using failed(1,4) by (auto simp: list_all2_updated_one)
  with failed(3) have "recognising (seen @ pdf_info # rest) w
      (seen @ mark status_failed pdf_info # rest) w'"
    using failed(5) by (rule recognisingI)
  then show ?thesis using failed(2) by simp
next
  case (complete p w' d)
  have "ocr_trace (seen @ pdf_info # rest)
     [OcrStarted (length seen) (JStr p), ResultAppended d,
         TrackingWritten (seen @ mark status_complete pdf_info # rest), ResultsSaved]
     = Some (seen @ mark status_complete pdf_info # rest)"
    using complete(1) by (simp add: list_all2_updated_one)
  with complete(3) have "recognising (seen @ pdf_info # rest) w
      (seen @ mark status_complete pdf_info # rest) w'"
    using complete(4) by (rule recognisingI)
  then show ?thesis using complete(2) by simp
qed

lemma ocr_items_recognising:
  "recognising (seen @ todo) w
     (fst (snd (ocr_items oc today ocr_attempts seen todo w)))
     (snd (snd (ocr_items oc today ocr_attempts seen todo w)))"
proof (induction todo arbitrary: seen w)
  case Nil
  show ?case by (simp add: recognising_refl)
next
  case (Cons pdf_info rest)
  obtain r w1 where
    one: "ocr_one (oc (length seen)) today ocr_attempts seen pdf_info rest w = (r, w1)"
    by (cases "ocr_one (oc (length seen)) today ocr_attempts seen pdf_info rest w")
  note o = ocr_one_recognising [where outcome = "oc (length seen)" and today = today
      and ocr_attempts = ocr_attempts and seen = seen and pdf_info = pdf_info and rest = rest
      and w = w, unfolded one]
  show ?case
  proof (cases r)
    case (Inl e)
    then show ?thesis using o one by (simp add: recognising_refl)
  next
    case (Inr pdf')
    then have "recognising (seen @ pdf_info # rest) w ((seen @ [pdf']) @ rest) w1"
      using o by simp
    then have "recognising (seen @ pdf_info # rest) w
        (fst (snd (ocr_items oc today ocr_attempts (seen @ [pdf']) rest w1)))
        (snd (snd (ocr_items oc today ocr_attempts (seen @ [pdf']) rest w1)))"
      using Cons.IH by (rule recognising_trans)
    then show ?thesis using one Inr by simp
  qed
qed

lemma ask_recognising: "recognising pdfs w pdfs (snd (snd (ask answers w)))"
  by (cases answers) (simp_all add: recognising_asked)

lemma ocr_round_recognising:
  assumes "ocr_round oc today ocr_attempts answers pdfs w = (r, answers', pdfs', w')"
  shows "recognising pdfs w pdfs' w'"
proof -
  define first where "first =
    (if ocr_attempts \<ge> max_ocr_attempts \<and> count_ocr status_failed pdfs > 0
     then ask answers w else (Inr True, answers, w))"
  obtain r0 a1 w1 where f: "first = (r0, a1, w1)" by (metis prod_cases3)
  have r1: "recognising pdfs w pdfs w1"
  proof (cases "ocr_attempts \<ge> max_ocr_attempts \<and> count_ocr status_failed pdfs > 0")
    case True
    then have "first = ask answers w" unfolding first_def by (rule if_P)
    then have "ask answers w = (r0, a1, w1)" using f by simp
    then have "snd (snd (ask answers w)) = w1" by simp
    then show ?thesis using ask_recognising [of pdfs w answers] by simp
  next
    case False
    then have "first = (Inr True, answers, w)" unfolding first_def by (rule if_not_P)
    then have "(Inr True, answers, w) = (r0, a1, w1)" using f by simp
    then have "w1 = w" by simp
    then show ?thesis by (simp add: recognising_refl)
  qed
  obtain res pdfs2 w2 where
    items: "ocr_items (oc ocr_attempts) today ocr_attempts [] pdfs (emit OcrPass w1)
            = (res, pdfs2, w2)"
    by (metis prod_cases3)
  have "recognising pdfs (emit OcrPass w1) pdfs2 w2"
    using ocr_items_recognising [of "[]" pdfs "emit OcrPass w1" "oc ocr_attempts" today
        ocr_attempts]
    unfolding items by simp
  with recognising_pass have "recognising pdfs w1 pdfs2 w2" by (rule recognising_trans)
  with r1 have r2: "recognising pdfs w pdfs2 w2" by (rule recognising_trans)
  have r3: "recognising pdfs w pdfs2 (snd (snd (ask a1 w2)))"
    using r2 ask_recognising by (rule recognising_trans)
  have unf: "ocr_round oc today ocr_attempts answers pdfs w =
     (case r0 of
        Inl e \<Rightarrow> (Inl e, a1, pdfs, w1)
      | Inr False \<Rightarrow> (Inr False, a1, pdfs, w1)
      | Inr True \<Rightarrow>
          (case res of
             Inl e \<Rightarrow> (Inl e, a1, pdfs2, w2)
           | Inr u \<Rightarrow>
               if count_ocr status_complete pdfs2 < length pdfs then
                 (if ocr_attempts + 1 < max_ocr_attempts then (Inr True, a1, pdfs2, w2)
                  else (fst (ask a1 w2), fst (snd (ask a1 w2)), pdfs2, snd (snd (ask a1 w2))))
               else (Inr True, a1, pdfs2, w2)))"
    unfolding ocr_round_def first_def [symmetric] f
    by (simp add: items split_beta split: sum.splits bool.splits)
  show ?thesis
  proof (cases r0)
    case (Inl e)
    then show ?thesis using assms r1 unfolding unf by simp
  next
    case (Inr b)
    show ?thesis
    proof (cases b)
      case False
      then show ?thesis using assms r1 Inr unfolding unf by simp
    next
      case True
      show ?thesis
      proof (cases res)
        case (Inl e)
        then show ?thesis using assms r2 Inr True unfolding unf by simp
      next
        case inr: (Inr u)
        show ?thesis
          using assms r2 r3 Inr True inr unfolding unf by (auto split: if_splits)
      qed
    qed
  qed
qed

lemma ocr_loop_recognising:
  assumes "ocr_loop oc today ocr_attempts answers pdfs w = (r, answers', pdfs', w')"
  shows "recognising pdfs w pdfs' w'"
  using assms
proof (induction oc today ocr_attempts answers pdfs w rule: ocr_loop.induct)
  case (1 oc today ocr_attempts answers downloaded_pdfs w)
  show ?case
  proof (cases "count_ocr status_complete downloaded_pdfs = length downloaded_pdfs")
    case True
    then have "pdfs' = downloaded_pdfs" "w' = w"
      using "1.prems" by (simp_all add: ocr_loop_done)
    then show ?thesis by (simp add: recognising_refl)
  next
    case False
    obtain r1 a1 p1 w1 where
      round: "ocr_round oc today ocr_attempts answers downloaded_pdfs w = (r1, a1, p1, w1)"
      by (metis prod_cases4)
    have r1: "recognising downloaded_pdfs w p1 w1" using round by (rule ocr_round_recognising)
    note unf = ocr_loop_round [OF False round]
    show ?thesis
    proof (cases "r1 = Inr True")
      case True
      have loop: "ocr_loop oc today (ocr_attempts + 1) a1 p1 w1 = (r, answers', pdfs', w')"
        using "1.prems" unfolding unf True by simp
      have "recognising p1 w1 pdfs' w'"
        by (rule "1.IH" [OF False round [symmetric] True refl refl refl loop])
      with r1 show ?thesis by (rule recognising_trans)
    next
      case False
      then have "pdfs' = p1" "w' = w1"
        using "1.prems" unfolding unf by (auto split: sum.splits bool.splits)
      then show ?thesis using r1 by simp
    qed
  qed
qed

lemma recognising_same_start:
  assumes "events w0 = events w" "tracking_file w0 = tracking_file w" "recognising a w0 b w'"
  shows "recognising a w b w'"
  using assms unfolding recognising_def in_step_def grows_iff by simp

lemma process_ocr_phase_recognising:
  assumes "process_ocr_phase f oc today answers downloaded_pdfs w = (r, answers', pdfs', w')"
  shows "recognising (case tracking_file w of None \<Rightarrow> downloaded_pdfs | Some loaded \<Rightarrow> loaded)
     w pdfs' w'"
proof -
  have "events (load_results f w) = events w" "tracking_file (load_results f w) = tracking_file w"
    by (cases f; simp add: load_results_def)+
  then show ?thesis
    using ocr_loop_recognising [OF assms [unfolded process_ocr_phase_def]]
    by (rule recognising_same_start)
qed

lemma verify_all_ocr_complete_recognising:
  "recognising pdfs w pdfs (snd (snd (verify_all_ocr_complete answers w)))"
proof (cases "tracking_file w")
  case None
  then show ?thesis by (simp add: verify_all_ocr_complete_def recognising_refl)
next
  case (Some downloaded_pdfs)
  show ?thesis
    using ask_recognising [of pdfs w answers]
    by (simp add: verify_all_ocr_complete_def Some recognising_refl Let_def split_beta
        split: sum.splits)
qed

lemma recognising_tracked:
  assumes "recognising a w b w'" "tracking_file w = Some a"
  shows "tracking_file w' = Some b"
  using assms unfolding recognising_def in_step_def by auto

lemma recognising_grows:
  "recognising a w b w' \<Longrightarrow> grows (\<lambda>evs. ocr_trace a evs = Some b) w w'"
  by (simp add: recognising_def)

lemma ocr_grows_trans:
  assumes "grows (\<lambda>evs. ocr_trace a evs = Some b) w w1"
    "grows (\<lambda>evs. ocr_trace b evs = Some c) w1 w2"
  shows "grows (\<lambda>evs. ocr_trace a evs = Some c) w w2"
  using assms by (rule grows_trans) (simp add: ocr_trace_append)

lemma ocr_phases_recognising:
  assumes "pdfs = [] \<or> tracking_file w = Some pdfs"
  shows "\<exists>final. recognising pdfs w final (snd (snd (ocr_phases env answers pdfs w)))"
proof (cases "pdfs = []")
  case True
  then show ?thesis by (auto simp: ocr_phases_def intro: recognising_refl)
next
  case False
  then have tf: "tracking_file w = Some pdfs" using assms by simp
  obtain r1 a1 p1 w1 where
    one: "process_ocr_phase (env_results_file env) (env_ocr env) (env_today env) answers pdfs w
          = (r1, a1, p1, w1)"
    by (metis prod_cases4)
  have rec1: "recognising pdfs w p1 w1"
    using process_ocr_phase_recognising [OF one] by (simp add: tf)
  then have tf1: "tracking_file w1 = Some p1" using tf by (rule recognising_tracked)
  show ?thesis
  proof (cases r1)
    case (Inl e)
    then show ?thesis using False one rec1 by (auto simp: ocr_phases_def)
  next
    case (Inr u)
    obtain r2 a2 w2 where two: "verify_all_ocr_complete a1 w1 = (r2, a2, w2)"
      by (metis prod_cases3)
    have "recognising p1 w1 p1 w2"
      using verify_all_ocr_complete_recognising [of p1 w1 a1] unfolding two by simp
    then have tf2: "tracking_file w2 = Some p1" using tf1 by (rule recognising_tracked)
    have rec2: "recognising pdfs w p1 w2"
      using rec1 \<open>recognising p1 w1 p1 w2\<close> by (rule recognising_trans)
    show ?thesis
    proof (cases r2)
      case (Inl e)
      then show ?thesis using False one Inr two rec2 by (auto simp: ocr_phases_def)
    next
      case inr: (Inr b)
      show ?thesis
      proof (cases b)
        case True
        then show ?thesis using False one Inr two inr rec2 by (auto simp: ocr_phases_def)
      next
        case again: False
        obtain r3 a3 p3 w3 where
          three: "process_ocr_phase (env_results_file_again env) (env_ocr_again env)
              (env_today env) a2 pdfs w2 = (r3, a3, p3, w3)"
          by (metis prod_cases4)
        have "recognising p1 w2 p3 w3"
          using process_ocr_phase_recognising [OF three] by (simp add: tf2)
        with rec2 have "recognising pdfs w p3 w3" by (rule recognising_trans)
        then show ?thesis
          using False one Inr two inr again three by (auto simp: ocr_phases_def)
      qed
    qed
  qed
qed

lemma ocr_grows_saved:
  "grows (\<lambda>evs. ocr_trace a evs = Some a) w (save_results w)"
  using recognising_saved by (rule recognising_grows)

lemma cleanup_grows:
  "grows (\<lambda>evs. ocr_trace a evs = Some a) w (snd (snd (cleanup answers w)))"
proof (cases "tracking_file w \<noteq> None")
  case False
  then have "cleanup answers w = (Inr (), answers, w)" by (simp add: cleanup_def)
  then show ?thesis using recognising_refl [THEN recognising_grows, of a w] by simp
next
  case True
  obtain r a2 w2 where v: "verify_all_ocr_complete answers w = (r, a2, w2)"
    by (metis prod_cases3)
  have g: "grows (\<lambda>evs. ocr_trace a evs = Some a) w w2"
    using verify_all_ocr_complete_recognising [of a w answers, THEN recognising_grows]
    unfolding v by simp
  then have g': "grows (\<lambda>evs. ocr_trace a evs = Some a) w (w2\<lparr>tracking_file := None\<rparr>)"
    by (simp add: grows_iff)
  show ?thesis
    using True v g g' by (cases r) (auto simp: cleanup_def split: bool.splits)
qed

lemma run_after_download:
  assumes "env_startup_ok env" "download_phase env max_documents w = (r, pdfs, w1)"
  shows "\<exists>final. grows (\<lambda>evs. ocr_trace pdfs evs = Some final) w1
     (run env max_documents answers w)"
proof (cases r)
  case (Inl e)
  then have "run env max_documents answers w = save_results w1"
    using assms by (simp add: run_def)
  then show ?thesis using ocr_grows_saved [of pdfs w1] by auto
next
  case (Inr u)
  have d: "downloading (initialize_download_phase w) w pdfs w1"
    using download_phase_downloading [of w env max_documents] unfolding assms(2) by simp
  have "pdfs = [] \<or> tracking_file w1 = Some pdfs"
    using d unfolding downloading_def in_step_def initialize_download_phase_def
    by (auto split: option.splits)
  then obtain final where
    "recognising pdfs w1 final (snd (snd (ocr_phases env answers pdfs w1)))"
    using ocr_phases_recognising by blast
  then have g: "grows (\<lambda>evs. ocr_trace pdfs evs = Some final) w1
      (snd (snd (ocr_phases env answers pdfs w1)))"
    by (rule recognising_grows)
  obtain r2 a2 w2 where o: "ocr_phases env answers pdfs w1 = (r2, a2, w2)"
    by (metis prod_cases3)
  have g2: "grows (\<lambda>evs. ocr_trace pdfs evs = Some final) w1 w2" using g unfolding o by simp
  show ?thesis
  proof (cases r2)
    case (Inl e)
    then have "run env max_documents answers w = save_results w2"
      using assms Inr o by (simp add: run_def)
    moreover have "grows (\<lambda>evs. ocr_trace pdfs evs = Some final) w1 (save_results w2)"
      using g2 ocr_grows_saved by (rule ocr_grows_trans)
    ultimately show ?thesis by auto
  next
    case inr: (Inr u2)
    obtain r3 a3 w3 where c: "cleanup a2 w2 = (r3, a3, w3)" by (metis prod_cases3)
    have "grows (\<lambda>evs. ocr_trace final evs = Some final) w2 w3"
      using cleanup_grows [of final w2 a2] unfolding c by simp
    with g2 have g3: "grows (\<lambda>evs. ocr_trace pdfs evs = Some final) w1 w3"
      by (rule ocr_grows_trans)
    then have g4: "grows (\<lambda>evs. ocr_trace pdfs evs = Some final) w1 (save_results w3)"
      using ocr_grows_saved by (rule ocr_grows_trans)
    have "run env max_documents answers w = (case r3 of Inl e \<Rightarrow> save_results w3 | Inr u \<Rightarrow> w3)"
      using assms Inr o inr c by (simp add: run_def split: sum.splits)
    then show ?thesis using g3 g4 by (cases r3) auto
  qed
qed

subsection \<open>What the records of the two phases tell\<close>

lemma mark_entry_ok:
  assumes "entry_ok x" "s = status_complete \<or> s = status_failed"
  shows "entry_ok (mark s x)"
proof -
  have k: "k_ocr \<in> set (map fst x)" using assms(1) by (simp add: entry_ok_def)
  have "distinct (map fst (mark s x))"
    using assms(1) by (simp add: entry_ok_def mark_def distinct_update)
  moreover have "set (map fst (mark s x)) = set (map fst x)"
    using k by (auto simp: mark_def dom_update)
  moreover have "ocr_is s (mark s x)" by simp
  ultimately show ?thesis using assms by (auto simp: entry_ok_def)
qed

lemma updated_entry_ok: "entry_ok x \<Longrightarrow> updated x y \<Longrightarrow> entry_ok y"
  unfolding updated_def by (auto intro: mark_entry_ok)

lemma updated_path: "updated x y \<Longrightarrow> map_of y k_path = map_of x k_path"
  unfolding updated_def using keys_distinct(3) by (auto simp: mark_def update_conv')

lemma list_all2_updated_entry_ok:
  "list_all2 updated a b \<Longrightarrow> list_all entry_ok a \<Longrightarrow> list_all entry_ok b"
  by (induction rule: list_all2_induct) (auto intro: updated_entry_ok)

lemma list_all2_updated_paths:
  "list_all2 updated a b \<Longrightarrow> map (\<lambda>x. map_of x k_path) b = map (\<lambda>x. map_of x k_path) a"
  by (induction rule: list_all2_induct) (auto intro: updated_path)

lemma follows_appended:
  assumes "written \<noteq> []" "butlast written = cur" "ocr_is status_pending (last written)"
  shows "follows cur written"
proof -
  have w: "written = cur @ [last written]" using assms(1,2) by (metis append_butlast_last_id)
  have "length cur \<le> length written" "take (length cur) written = cur"
    "drop (length cur) written = [last written]"
    by (subst w, simp)+
  then show ?thesis using assms(3) by (simp add: follows_def)
qed

lemma follows_updated: "list_all2 updated cur written \<Longrightarrow> follows cur written"
  by (simp add: follows_def list_all2_lengthD)

lemma download_trace_chain:
  assumes "list_all entry_ok cur" "download_trace cur evs = Some b"
  shows "list_all entry_ok b \<and> chain_ok cur (evs @ tail) = chain_ok b tail"
  using assms
proof (induction cur evs rule: download_trace.induct)
  case (4 cur written evs)
  then have c: "written \<noteq> []" "butlast written = cur" "entry_ok (last written)"
    "ocr_is status_pending (last written)" and rest: "download_trace written evs = Some b"
    by (simp_all split: if_splits)
  have "written = cur @ [last written]" using c(1,2) by (metis append_butlast_last_id)
  moreover have "list_all entry_ok (cur @ [last written])" using "4.prems"(1) c(3) by simp
  ultimately have ok: "list_all entry_ok written" by simp
  have f: "follows cur written" using c(1,2,4) by (rule follows_appended)
  have "list_all entry_ok b \<and> chain_ok written (evs @ tail) = chain_ok b tail"
    using c ok rest by (intro "4.IH") simp_all
  then show ?case using ok f by simp
qed simp_all

lemma ocr_trace_chain:
  assumes "list_all entry_ok cur" "ocr_trace cur evs = Some b"
  shows "list_all entry_ok b \<and> chain_ok cur (evs @ tail) = chain_ok b tail"
  using assms
proof (induction cur evs rule: ocr_trace.induct)
  case (5 cur written evs)
  then have u: "list_all2 updated cur written" and rest: "ocr_trace written evs = Some b"
    by (simp_all split: if_splits)
  have ok: "list_all entry_ok written"
    using u "5.prems"(1) by (rule list_all2_updated_entry_ok)
  have f: "follows cur written" using u by (rule follows_updated)
  have "list_all entry_ok b \<and> chain_ok written (evs @ tail) = chain_ok b tail"
    using u ok rest by (intro "5.IH") simp_all
  then show ?case using ok f by simp
qed (simp_all split: if_splits)

lemma download_trace_facts:
  assumes "download_trace cur evs = Some b"
  shows "list_all (\<lambda>e. \<not> is_ocr_event e) evs \<and>
     (\<exists>added. b = cur @ added \<and> list_all (ocr_is status_pending) added)"
  using assms
proof (induction cur evs rule: download_trace.induct)
  case (4 cur written evs)
  then have c: "written \<noteq> []" "butlast written = cur"
    "ocr_is status_pending (last written)" and e: "entry_ok (last written)"
    and rest: "download_trace written evs = Some b"
    by (simp_all split: if_splits)
  have w: "written = cur @ [last written]" using c(1,2) by (metis append_butlast_last_id)
  have "list_all (\<lambda>e. \<not> is_ocr_event e) evs \<and>
     (\<exists>added. b = written @ added \<and> list_all (ocr_is status_pending) added)"
    using c e rest by (intro "4.IH") simp_all
  then obtain added where a: "list_all (\<lambda>e. \<not> is_ocr_event e) evs" "b = written @ added"
    "list_all (ocr_is status_pending) added"
    by blast
  have "b = cur @ (last written # added)" using a(2) w by (metis append_Cons append_Nil append_assoc)
  moreover have "list_all (ocr_is status_pending) (last written # added)"
    using a(3) c(3) by simp
  ultimately show ?case using a(1) by (intro conjI exI [of _ "last written # added"]) simp_all
qed simp_all

lemma ocr_trace_facts:
  assumes "map (\<lambda>x. map_of x k_path) cur = map (\<lambda>x. map_of x k_path) pdfs"
    "ocr_trace cur evs = Some b"
  shows "list_all (\<lambda>e. \<not> is_download_event e \<and> reads_recorded pdfs e) evs"
  using assms
proof (induction cur evs rule: ocr_trace.induct)
  case (4 cur i p evs)
  then have c: "i < length cur" "map_of (cur ! i) k_path = Some p"
    and rest: "ocr_trace cur evs = Some b"
    by (simp_all split: if_splits)
  have len: "length cur = length pdfs" using "4.prems"(1) by (metis length_map)
  have "map_of (pdfs ! i) k_path = map (\<lambda>x. map_of x k_path) pdfs ! i"
    using c(1) len by simp
  also have "\<dots> = map_of (cur ! i) k_path"
    using c(1) "4.prems"(1) by (metis nth_map)
  finally have "reads_recorded pdfs (OcrStarted i p)" using c len by simp
  moreover have "list_all (\<lambda>e. \<not> is_download_event e \<and> reads_recorded pdfs e) evs"
    using c "4.prems"(1) rest by (intro "4.IH") simp_all
  ultimately show ?case by simp
next
  case (5 cur written evs)
  then have u: "list_all2 updated cur written" and rest: "ocr_trace written evs = Some b"
    by (simp_all split: if_splits)
  have "map (\<lambda>x. map_of x k_path) written = map (\<lambda>x. map_of x k_path) pdfs"
    using list_all2_updated_paths [OF u] "5.prems"(1) by simp
  then have "list_all (\<lambda>e. \<not> is_download_event e \<and> reads_recorded pdfs e) evs"
    using u rest by (intro "5.IH") simp_all
  then show ?case by simp
qed (simp_all split: if_splits)

subsection \<open>Claims C3 and C4: the tracking file and the order of the phases\<close>

lemma new_events_append: "events w' = events w @ evs \<Longrightarrow> new_events w w' = evs"
  by (simp add: new_events_def)

lemma run_events:
  assumes "env_startup_ok env" "download_phase env max_documents w = (r, pdfs, w1)"
  obtains before later final where "events w1 = events w @ before"
    "events (run env max_documents answers w) = events w1 @ later"
    "download_trace (initialize_download_phase w) before = Some pdfs"
    "ocr_trace pdfs later = Some final"
proof -
  have "downloading (initialize_download_phase w) w pdfs w1"
    using download_phase_downloading [of w env max_documents] unfolding assms(2) by simp
  then have "grows (\<lambda>evs. download_trace (initialize_download_phase w) evs = Some pdfs) w w1"
    by (simp add: downloading_def)
  then obtain before where before: "events w1 = events w @ before"
    "download_trace (initialize_download_phase w) before = Some pdfs"
    by (rule growsE)
  obtain final where "grows (\<lambda>evs. ocr_trace pdfs evs = Some final) w1
     (run env max_documents answers w)"
    using run_after_download [OF assms] by blast
  then obtain later where later: "events (run env max_documents answers w) = events w1 @ later"
    "ocr_trace pdfs later = Some final"
    by (rule growsE)
  show thesis using before(1) later(1) before(2) later(2) by (rule that)
qed

text \<open>
  Claim C3. Let the tracking file at the start of \<open>run\<close> be absent, or hold entries
  of the right shape. Then every list that \<open>run\<close> writes to the tracking file, in the
  download phase, in the verification of the downloads and in the OCR phases, has
  only entries with exactly the fields \<open>path\<close>, \<open>url\<close>, \<open>title\<close> and \<open>ocr\<close> and with
  one of the three status words; and each list written follows the one written before
  it (the first one the list loaded at the start): its entries are those of the list
  before, each unchanged or with \<open>ocr\<close> set to \<open>complete\<close> or \<open>failed\<close>, followed
  by new entries that are \<open>pending\<close>.
\<close>

theorem tracking_file_shape:
  assumes "list_all entry_ok (initialize_download_phase w)"
  shows "chain_ok (initialize_download_phase w)
     (new_events w (run env max_documents answers w))"
proof (cases "env_startup_ok env")
  case False
  then have "events (run env max_documents answers w) = events w @ [ResultsSaved]"
    by (simp add: run_def)
  then have "new_events w (run env max_documents answers w) = [ResultsSaved]"
    by (rule new_events_append)
  then show ?thesis by simp
next
  case True
  obtain r pdfs w1 where d: "download_phase env max_documents w = (r, pdfs, w1)"
    by (metis prod_cases3)
  from True d obtain before later final where e: "events w1 = events w @ before"
    "events (run env max_documents answers w) = events w1 @ later"
    and t: "download_trace (initialize_download_phase w) before = Some pdfs"
    "ocr_trace pdfs later = Some final"
    by (rule run_events)
  have "events (run env max_documents answers w) = events w @ (before @ later)" using e by simp
  then have n: "new_events w (run env max_documents answers w) = before @ later"
    by (rule new_events_append)
  have c1: "list_all entry_ok pdfs"
    "chain_ok (initialize_download_phase w) (before @ later) = chain_ok pdfs later"
    using download_trace_chain [OF assms t(1), of later] by simp_all
  have "chain_ok pdfs (later @ []) = chain_ok final []"
    using ocr_trace_chain [OF c1(1) t(2), of "[]"] by simp
  then show ?thesis unfolding n c1(2) by simp
qed

text \<open>
  An instance, the run from nothing with the document \<open>B\<close>: the tracking file is
  written twice, with the entry pending after the download and complete after the
  OCR.
\<close>

lemma run_one_events:
  "events (run env_one None [] world_empty) =
     [DownloadAttempt (JStr (str_of ''https://vault.fbi.gov/b'')),
      PdfStored (str_of ''pdfs/B.pdf''),
      TrackingWritten
        [new_entry (str_of ''pdfs/B.pdf'') (JStr (str_of ''https://vault.fbi.gov/b''))
           (str_of ''B'')],
      OcrPass,
      OcrStarted 0 (JStr (str_of ''pdfs/B.pdf'')),
      ResultAppended
        (document (str_of ''2024-01-01'') (JStr (str_of ''B'')) (replicate 60 97)
           (JStr (str_of ''https://vault.fbi.gov/b'')) (JStr (str_of ''pdfs/B.pdf''))),
      TrackingWritten
        [mark status_complete
           (new_entry (str_of ''pdfs/B.pdf'') (JStr (str_of ''https://vault.fbi.gov/b''))
              (str_of ''B''))],
      ResultsSaved]"
  by code_simp

text \<open>The theorem for this run.\<close>

theorem tracking_file_shape_witness:
  "list_all entry_ok (initialize_download_phase world_empty) \<and>
   chain_ok (initialize_download_phase world_empty)
     (new_events world_empty (run env_one None [] world_empty))"
proof -
  have h: "list_all entry_ok (initialize_download_phase world_empty)"
    by (simp add: initialize_download_phase_def world_empty_def)
  show ?thesis
    using h tracking_file_shape [OF h, where env = env_one and max_documents = None
        and answers = "[]"]
    by simp
qed

text \<open>
  Claim C4. In a run whose browser starts, let \<open>pdfs\<close> be the tracking list and \<open>w1\<close>
  the world at the end of the download phase (the loop over the pages of results
  and the verification of the downloads). Up to there nothing of the OCR has happened:
  no pass, no text extraction and no result appended, the list of results is as it
  was, and the tracking list is the list loaded at the start followed by new entries
  that are all pending. The list is what the tracking file holds, unless it is empty.
  The rest of the run continues the record of the download phase: it makes no
  download attempt and stores no PDF, and every text extraction it starts is of an
  entry of \<open>pdfs\<close>, by its position and with the path recorded there.
\<close>

theorem phases_sequential:
  assumes "env_startup_ok env"
  shows "case download_phase env max_documents w of
      (r, pdfs, w1) \<Rightarrow>
        list_all (\<lambda>e. \<not> is_ocr_event e) (new_events w w1) \<and>
        ocr_results w1 = ocr_results w \<and>
        (\<exists>added. pdfs = initialize_download_phase w @ added \<and>
                 list_all (ocr_is status_pending) added) \<and>
        (pdfs = [] \<or> tracking_file w1 = Some pdfs) \<and>
        events (run env max_documents answers w)
          = events w1 @ new_events w1 (run env max_documents answers w) \<and>
        list_all (\<lambda>e. \<not> is_download_event e \<and> reads_recorded pdfs e)
          (new_events w1 (run env max_documents answers w))"
proof -
  obtain r pdfs w1 where d: "download_phase env max_documents w = (r, pdfs, w1)"
    by (metis prod_cases3)
  from assms d obtain before later final where e: "events w1 = events w @ before"
    "events (run env max_documents answers w) = events w1 @ later"
    and t: "download_trace (initialize_download_phase w) before = Some pdfs"
    "ocr_trace pdfs later = Some final"
    by (rule run_events)
  have n_before: "new_events w w1 = before" using e(1) by (rule new_events_append)
  have n_later: "new_events w1 (run env max_documents answers w) = later"
    using e(2) by (rule new_events_append)
  have dl: "downloading (initialize_download_phase w) w pdfs w1"
    using download_phase_downloading [of w env max_documents] unfolding d by simp
  have 1: "list_all (\<lambda>e. \<not> is_ocr_event e) before"
    and 3: "\<exists>added. pdfs = initialize_download_phase w @ added \<and>
                 list_all (ocr_is status_pending) added"
    using download_trace_facts [OF t(1)] by simp_all
  have 2: "ocr_results w1 = ocr_results w" using dl by (simp add: downloading_def)
  have 4: "pdfs = [] \<or> tracking_file w1 = Some pdfs"
    using dl unfolding downloading_def in_step_def initialize_download_phase_def
    by (auto split: option.splits)
  have 6: "list_all (\<lambda>e. \<not> is_download_event e \<and> reads_recorded pdfs e) later"
    using ocr_trace_facts [OF refl t(2)] .
  have 1: "list_all (\<lambda>e. \<not> is_ocr_event e) (new_events w w1)"
    using 1 unfolding n_before .
  have 5: "events (run env max_documents answers w)
      = events w1 @ new_events w1 (run env max_documents answers w)"
    using e(2) unfolding n_later .
  have 6: "list_all (\<lambda>e. \<not> is_download_event e \<and> reads_recorded pdfs e)
      (new_events w1 (run env max_documents answers w))"
    using 6 unfolding n_later .
  show ?thesis
    unfolding d using 1 2 3 4 5 6 by simp
qed

text \<open>An instance: the run from nothing with the document \<open>B\<close>.\<close>

theorem phases_sequential_witness:
  "env_startup_ok env_one \<and>
   (case download_phase env_one None world_empty of
      (r, pdfs, w1) \<Rightarrow>
        list_all (\<lambda>e. \<not> is_ocr_event e) (new_events world_empty w1) \<and>
        ocr_results w1 = ocr_results world_empty \<and>
        (\<exists>added. pdfs = initialize_download_phase world_empty @ added \<and>
                 list_all (ocr_is status_pending) added) \<and>
        (pdfs = [] \<or> tracking_file w1 = Some pdfs) \<and>
        events (run env_one None [] world_empty)
          = events w1 @ new_events w1 (run env_one None [] world_empty) \<and>
        list_all (\<lambda>e. \<not> is_download_event e \<and> reads_recorded pdfs e)
          (new_events w1 (run env_one None [] world_empty)))"
proof -
  have h: "env_startup_ok env_one" by (simp add: env_one_def)
  show ?thesis
    using h phases_sequential [OF h, where max_documents = None and w = world_empty
        and answers = "[]"]
    by simp
qed

text \<open>The download phase of this run ends with the entry pending and no result.\<close>

lemma download_phase_one:
  "download_phase env_one None world_empty =
     (Inr (),
      [new_entry (str_of ''pdfs/B.pdf'') (JStr (str_of ''https://vault.fbi.gov/b''))
         (str_of ''B'')],
      \<lparr>tracking_file =
         Some [new_entry (str_of ''pdfs/B.pdf'') (JStr (str_of ''https://vault.fbi.gov/b''))
                 (str_of ''B'')],
       ocr_results = [],
       events =
         [DownloadAttempt (JStr (str_of ''https://vault.fbi.gov/b'')),
          PdfStored (str_of ''pdfs/B.pdf''),
          TrackingWritten
            [new_entry (str_of ''pdfs/B.pdf'') (JStr (str_of ''https://vault.fbi.gov/b''))
               (str_of ''B'')]]\<rparr>)"
  by code_simp

section \<open>Command lines\<close>


subsection \<open>Claim C6: the number of command-line arguments\<close>




end
